theory Spec2Isabelle
  imports Main "HOL-Library.Word"
begin

unbundle bit_operations_syntax

section \<open>The external scanner of tree-sitter-talon (src/scanner.cc)\<close>

subsection \<open>Token kinds and characters\<close>

datatype TokenType =
    NEWLINE | INDENT | DEDENT
  | STRING_START | STRING_CONTENT | STRING_END
  | REGEX_START | REGEX_CONTENT | REGEX_END
  | COMMENT | CLOSE_PAREN | CLOSE_BRACKET | CLOSE_BRACE

text \<open>
  The lookahead of the host lexer is an \<open>int32_t\<close> code point. The character literals of
  the source are named here; each stands for its code.
\<close>

type_synonym codepoint = "32 word"

abbreviation ch_tab :: codepoint where "ch_tab \<equiv> 9"
abbreviation ch_newline :: codepoint where "ch_newline \<equiv> 10"
abbreviation ch_formfeed :: codepoint where "ch_formfeed \<equiv> 12"
abbreviation ch_return :: codepoint where "ch_return \<equiv> 13"
abbreviation ch_space :: codepoint where "ch_space \<equiv> 32"
abbreviation ch_dquote :: codepoint where "ch_dquote \<equiv> 34"
abbreviation ch_hash :: codepoint where "ch_hash \<equiv> 35"
abbreviation ch_squote :: codepoint where "ch_squote \<equiv> 39"
abbreviation ch_slash :: codepoint where "ch_slash \<equiv> 47"
abbreviation ch_backslash :: codepoint where "ch_backslash \<equiv> 92"
abbreviation ch_backquote :: codepoint where "ch_backquote \<equiv> 96"
abbreviation ch_lbrace :: codepoint where "ch_lbrace \<equiv> 123"
abbreviation ch_rbrace :: codepoint where "ch_rbrace \<equiv> 125"

subsection \<open>Delimiter\<close>

text \<open>
  \<open>struct Delimiter\<close> holds one \<open>char\<close> of flags: bit 0 is SingleQuote, bit 1 is
  DoubleQuote, bit 2 is BackQuote.
\<close>

datatype Delimiter = Delimiter (flags: "8 word")

abbreviation SingleQuote :: "8 word" where "SingleQuote \<equiv> 1"
abbreviation DoubleQuote :: "8 word" where "DoubleQuote \<equiv> 2"
abbreviation BackQuote :: "8 word" where "BackQuote \<equiv> 4"

definition end_character :: "Delimiter \<Rightarrow> codepoint" where
  "end_character d =
     (if flags d AND SingleQuote \<noteq> 0 then ch_squote
      else if flags d AND DoubleQuote \<noteq> 0 then ch_dquote
      else if flags d AND BackQuote \<noteq> 0 then ch_backquote
      else 0)"

text \<open>
  \<open>set_end_character\<close> sets the flag of one of the three quotes. Its default branch is
  \<open>assert(false)\<close>; \<open>scan\<close> calls it with the three quote literals only, so that
  branch is never taken, and it is modelled as leaving the flags as they are.
\<close>

definition set_end_character :: "Delimiter \<Rightarrow> codepoint \<Rightarrow> Delimiter" where
  "set_end_character d character =
     (if character = ch_squote then Delimiter (flags d OR SingleQuote)
      else if character = ch_dquote then Delimiter (flags d OR DoubleQuote)
      else if character = ch_backquote then Delimiter (flags d OR BackQuote)
      else d)"

subsection \<open>Scanner state\<close>

record Scanner =
  previous_indent_length :: "16 word"
  delimiter_stack :: "Delimiter list"

text \<open>The zero state: no open string literal, indentation baseline 0.\<close>

definition zero_state :: Scanner where
  "zero_state = \<lparr>previous_indent_length = 0, delimiter_stack = []\<rparr>"

subsection \<open>Serialization\<close>

text \<open>
  The buffer is the memory behind a \<open>char *\<close>: a byte at every offset. Whether plain
  \<open>char\<close> is signed is fixed by the platform, so the conversion of a buffer byte to the
  16-bit baseline takes it as a parameter: sign extension where \<open>char\<close> is signed, zero
  extension where it is not.
\<close>

type_synonym buffer = "nat \<Rightarrow> 8 word"

definition char_to_uint16 :: "bool \<Rightarrow> 8 word \<Rightarrow> 16 word" where
  "char_to_uint16 char_signed b = (if char_signed then scast b else ucast b)"

text \<open>
  \<open>memcpy\<close> of \<open>n\<close> delimiters into the buffer from offset \<open>i\<close>, and out of it.
\<close>

definition memcpy_to_buffer :: "buffer \<Rightarrow> nat \<Rightarrow> Delimiter list \<Rightarrow> nat \<Rightarrow> buffer" where
  "memcpy_to_buffer b i ds n = (\<lambda>j. if i \<le> j \<and> j < i + n then flags (ds ! (j - i)) else b j)"

definition memcpy_from_buffer :: "buffer \<Rightarrow> nat \<Rightarrow> nat \<Rightarrow> Delimiter list" where
  "memcpy_from_buffer b i n = map (\<lambda>j. Delimiter (b j)) [i ..< i + n]"

text \<open>
  \<open>serialize\<close> (lines 83 to 103) returns the buffer it has written and the number of
  bytes written. The count, at most 255, is stored as one byte; the assignment of the
  16-bit \<open>previous_indent_length\<close> to one \<open>char\<close> keeps its low byte.
\<close>

definition serialize :: "Scanner \<Rightarrow> buffer \<Rightarrow> buffer \<times> nat" where
  "serialize s b =
     (let delimiter_count = (if length (delimiter_stack s) > 255 then 255
                             else length (delimiter_stack s));
          b1 = b(0 := of_nat delimiter_count);
          b2 = (if delimiter_count > 0
                then memcpy_to_buffer b1 1 (delimiter_stack s) delimiter_count else b1);
          i = 1 + delimiter_count;
          b3 = b2(i := ucast (previous_indent_length s))
      in (b3, i + 1))"

text \<open>
  \<open>deserialize\<close> (lines 105 to 125) returns the new state together with the offsets
  of the buffer it has read, in the order of the reads. The count is read as a
  \<open>uint8_t\<close>; the baseline is read as a plain \<open>char\<close> and converted to
  \<open>uint16_t\<close>.
\<close>

definition deserialize_reading ::
  "bool \<Rightarrow> Scanner \<Rightarrow> buffer \<Rightarrow> nat \<Rightarrow> Scanner \<times> nat list" where
  "deserialize_reading char_signed s b len =
     (let s0 = s\<lparr>delimiter_stack := []\<rparr> in
      if len > 0 then
        (let delimiter_count = unat (b 0);
             stack = (if delimiter_count > 0 then memcpy_from_buffer b 1 delimiter_count
                      else replicate delimiter_count (Delimiter 0));
             i = 1 + delimiter_count
         in (s0\<lparr>delimiter_stack := stack,
                 previous_indent_length := char_to_uint16 char_signed (b i)\<rparr>,
             0 # (if delimiter_count > 0 then [1 ..< 1 + delimiter_count] else []) @ [i]))
      else (s0, []))"

definition deserialize :: "bool \<Rightarrow> Scanner \<Rightarrow> buffer \<Rightarrow> nat \<Rightarrow> Scanner" where
  "deserialize char_signed s b len = fst (deserialize_reading char_signed s b len)"

text \<open>A buffer that starts with the given bytes and holds zero bytes after them.\<close>

definition buffer_of :: "8 word list \<Rightarrow> buffer" where
  "buffer_of bs = (\<lambda>i. if i < length bs then bs ! i else 0)"

subsection \<open>The host lexer\<close>

text \<open>
  Modelled from the spec: the \<open>TSLexer\<close> of the host (tree_sitter/parser.h), which the
  scanner only calls. It gives the position in the character stream with one character of
  lookahead (0 at the end of the input), advances by one character, either as token
  content or as skipped trivia, marks the current position as the end of the token, and
  holds the kind of the token found.
\<close>

record TSLexer =
  input :: "codepoint list"
  position :: nat
  token_start :: nat
  token_end :: nat
  result_symbol :: TokenType

definition lookahead :: "TSLexer \<Rightarrow> codepoint" where
  "lookahead lx = (case input lx of [] \<Rightarrow> 0 | c # _ \<Rightarrow> c)"

definition lexer_advance :: "TSLexer \<Rightarrow> bool \<Rightarrow> TSLexer" where
  "lexer_advance lx skp =
     (case input lx of
        [] \<Rightarrow> lx
      | c # cs \<Rightarrow> lx\<lparr>input := cs, position := Suc (position lx),
                     token_start := (if skp then Suc (position lx) else token_start lx)\<rparr>)"

definition mark_end :: "TSLexer \<Rightarrow> TSLexer" where
  "mark_end lx = lx\<lparr>token_end := position lx\<rparr>"

definition advance :: "TSLexer \<Rightarrow> TSLexer" where
  "advance lx = lexer_advance lx False"

definition skip :: "TSLexer \<Rightarrow> TSLexer" where
  "skip lx = lexer_advance lx True"

lemma length_input_advance:
  "lookahead lx \<noteq> 0 \<Longrightarrow> length (input (advance lx)) < length (input lx)"
  by (simp add: advance_def lexer_advance_def lookahead_def split: list.splits)

lemma length_input_skip:
  "lookahead lx \<noteq> 0 \<Longrightarrow> length (input (skip lx)) < length (input lx)"
  by (simp add: skip_def lexer_advance_def lookahead_def split: list.splits)

lemma length_input_skip_le: "length (input (skip lx)) \<le> length (input lx)"
  by (simp add: skip_def lexer_advance_def split: list.splits)

subsection \<open>The string-content loop (scan, lines 142 to 183)\<close>

text \<open>
  Each loop returns \<open>Some r\<close> where the source returns \<open>r\<close> from \<open>scan\<close> inside the
  loop, and \<open>None\<close> where the loop ends and \<open>scan\<close> goes on.
\<close>

function string_content_loop ::
  "codepoint \<Rightarrow> bool \<Rightarrow> Scanner \<Rightarrow> TSLexer \<Rightarrow> bool option \<times> Scanner \<times> TSLexer" where
  "string_content_loop end_char has_content s lx =
     (if lookahead lx \<noteq> 0 then
        if lookahead lx = ch_lbrace \<or> lookahead lx = ch_rbrace then
          (Some has_content, s, (mark_end lx)\<lparr>result_symbol := STRING_CONTENT\<rparr>)
        else if lookahead lx = ch_backslash then
          (Some has_content, s, (mark_end lx)\<lparr>result_symbol := STRING_CONTENT\<rparr>)
        else if lookahead lx = end_char then
          (if has_content then
             (Some True, s, mark_end (lx\<lparr>result_symbol := STRING_CONTENT\<rparr>))
           else
             (Some True, s\<lparr>delimiter_stack := butlast (delimiter_stack s)\<rparr>,
              mark_end ((lexer_advance lx False)\<lparr>result_symbol := STRING_END\<rparr>)))
        else if lookahead lx = ch_newline \<and> has_content then (Some False, s, lx)
        else string_content_loop end_char True s (advance lx)
      else (None, s, lx))"
  by pat_completeness auto
termination
  by (relation "measure (\<lambda>(e, h, s, lx). length (input lx))")
     (auto simp: length_input_advance)

declare string_content_loop.simps [simp del]

subsection \<open>The regex-content loop (scan, lines 185 to 217)\<close>

function regex_content_loop :: "bool \<Rightarrow> TSLexer \<Rightarrow> bool option \<times> TSLexer" where
  "regex_content_loop has_content lx =
     (if lookahead lx \<noteq> 0 then
        if lookahead lx = ch_backslash then
          (Some has_content, (mark_end lx)\<lparr>result_symbol := REGEX_CONTENT\<rparr>)
        else if lookahead lx = ch_slash then
          (if has_content then
             (Some True, mark_end (lx\<lparr>result_symbol := REGEX_CONTENT\<rparr>))
           else
             (Some True, mark_end ((lexer_advance lx False)\<lparr>result_symbol := REGEX_END\<rparr>)))
        else if lookahead lx = ch_newline \<and> has_content then (Some False, lx)
        else regex_content_loop True (advance lx)
      else (None, lx))"
  by pat_completeness auto
termination
  by (relation "measure (\<lambda>(h, lx). length (input lx))")
     (auto simp: length_input_advance)

declare regex_content_loop.simps [simp del]

subsection \<open>Phase A: the layout loop (scan, lines 221 to 291)\<close>

text \<open>The inner loop of a comment: skip up to a newline or a zero lookahead.\<close>

function comment_loop :: "TSLexer \<Rightarrow> TSLexer" where
  "comment_loop lx =
     (if lookahead lx \<noteq> 0 \<and> lookahead lx \<noteq> ch_newline then comment_loop (skip lx) else lx)"
  by pat_completeness auto
termination
  by (relation "measure (\<lambda>lx. length (input lx))") (auto simp: length_input_skip)

declare comment_loop.simps [simp del]

lemma length_input_comment_loop: "length (input (comment_loop lx)) \<le> length (input lx)"
proof (induction lx rule: comment_loop.induct)
  case (1 lx)
  show ?case
  proof (cases "lookahead lx \<noteq> 0 \<and> lookahead lx \<noteq> ch_newline")
    case True
    with 1 have "length (input (comment_loop (skip lx))) \<le> length (input (skip lx))"
      by simp
    also have "\<dots> \<le> length (input lx)" by (rule length_input_skip_le)
    finally show ?thesis using True by (subst comment_loop.simps) simp
  next
    case False
    then show ?thesis by (subst comment_loop.simps) auto
  qed
qed

lemma length_input_comment:
  assumes "lookahead lx = ch_hash"
  shows "length (input (skip (comment_loop lx))) < length (input lx)"
proof -
  from assms have nz: "lookahead lx \<noteq> 0" and nn: "lookahead lx \<noteq> ch_newline" by simp_all
  then have eq: "comment_loop lx = comment_loop (skip lx)"
    by (subst comment_loop.simps) simp
  have "length (input (skip (comment_loop lx))) \<le> length (input (comment_loop lx))"
    by (rule length_input_skip_le)
  also have "\<dots> = length (input (comment_loop (skip lx)))"
    by (subst eq) (rule refl)
  also have "\<dots> \<le> length (input (skip lx))" by (rule length_input_comment_loop)
  also have "\<dots> < length (input lx)" using nz by (rule length_input_skip)
  finally show ?thesis .
qed

text \<open>
  The loop returns \<open>Inl\<close> of the lexer where the source returns false from \<open>scan\<close> (a
  backslash that does not continue the line), and \<open>Inr\<close> of \<open>found_end_of_line\<close>,
  \<open>indent_length\<close> (a \<open>uint32_t\<close>), \<open>first_comment_indent_length\<close> (an \<open>int32_t\<close>,
  -1 while no comment was seen) and the lexer where it breaks.
\<close>

function layout_loop ::
  "bool \<Rightarrow> 32 word \<Rightarrow> 32 word \<Rightarrow> TSLexer \<Rightarrow> TSLexer + bool \<times> 32 word \<times> 32 word \<times> TSLexer"
  where
  "layout_loop found_end_of_line indent_length first_comment_indent_length lx =
     (if lookahead lx = ch_newline then
        layout_loop True 0 first_comment_indent_length (skip lx)
      else if lookahead lx = ch_space then
        layout_loop found_end_of_line (indent_length + 1) first_comment_indent_length (skip lx)
      else if lookahead lx = ch_return then
        layout_loop found_end_of_line 0 first_comment_indent_length (skip lx)
      else if lookahead lx = ch_tab then
        layout_loop found_end_of_line (indent_length + 8) first_comment_indent_length (skip lx)
      else if lookahead lx = ch_hash then
        layout_loop found_end_of_line 0
          (if first_comment_indent_length = - 1 then indent_length
           else first_comment_indent_length)
          (skip (comment_loop lx))
      else if lookahead lx = ch_backslash then
        (if lookahead (if lookahead (skip lx) = ch_return then skip (skip lx) else skip lx)
            = ch_newline
         then layout_loop found_end_of_line indent_length first_comment_indent_length
                (skip (if lookahead (skip lx) = ch_return then skip (skip lx) else skip lx))
         else Inl (if lookahead (skip lx) = ch_return then skip (skip lx) else skip lx))
      else if lookahead lx = ch_formfeed then
        layout_loop found_end_of_line 0 first_comment_indent_length (skip lx)
      else if lookahead lx = 0 then Inr (True, 0, first_comment_indent_length, lx)
      else Inr (found_end_of_line, indent_length, first_comment_indent_length, lx))"
  by pat_completeness auto
termination
proof (relation "measure (\<lambda>(f, i, c, lx). length (input lx))", goal_cases)
  case 1
  show ?case by simp
next
  case (2 f i c lx)
  then show ?case by (simp add: length_input_skip)
next
  case (3 f i c lx)
  then show ?case by (simp add: length_input_skip)
next
  case (4 f i c lx)
  then show ?case by (simp add: length_input_skip)
next
  case (5 f i c lx)
  then show ?case by (simp add: length_input_skip)
next
  case (6 f i c lx)
  then show ?case by (simp add: length_input_comment)
next
  case (7 f i c lx)
  then have "length (input (skip lx)) < length (input lx)"
    by (simp add: length_input_skip)
  moreover have "length (input (skip (skip (skip lx)))) \<le> length (input (skip lx))"
    by (meson length_input_skip_le order_trans)
  moreover have "length (input (skip (skip lx))) \<le> length (input (skip lx))"
    by (rule length_input_skip_le)
  ultimately show ?case by auto
next
  case (8 f i c lx)
  then show ?case by (simp add: length_input_skip)
qed

declare layout_loop.simps [simp del]


subsection \<open>scan\<close>

type_synonym valid_symbols = "TokenType \<Rightarrow> bool"

definition error_recovery_mode :: "valid_symbols \<Rightarrow> bool" where
  "error_recovery_mode valid_symbols =
     ((valid_symbols STRING_CONTENT \<or> valid_symbols REGEX_CONTENT) \<and> valid_symbols INDENT)"

definition within_brackets :: "valid_symbols \<Rightarrow> bool" where
  "within_brackets valid_symbols =
     (valid_symbols CLOSE_BRACE \<or> valid_symbols CLOSE_PAREN \<or> valid_symbols CLOSE_BRACKET)"

text \<open>Lines 142 to 183: the string-content scanner. The top of the stack is its last element.\<close>

definition scan_string_content ::
  "Scanner \<Rightarrow> TSLexer \<Rightarrow> valid_symbols \<Rightarrow> bool option \<times> Scanner \<times> TSLexer" where
  "scan_string_content s lx valid_symbols =
     (if valid_symbols STRING_CONTENT \<and> delimiter_stack s \<noteq> []
         \<and> \<not> error_recovery_mode valid_symbols
      then string_content_loop (end_character (last (delimiter_stack s))) False s lx
      else (None, s, lx))"

text \<open>Lines 185 to 217: the regex-content scanner.\<close>

definition scan_regex_content :: "TSLexer \<Rightarrow> valid_symbols \<Rightarrow> bool option \<times> TSLexer" where
  "scan_regex_content lx valid_symbols =
     (if valid_symbols REGEX_CONTENT \<and> \<not> error_recovery_mode valid_symbols
      then regex_content_loop False lx
      else (None, lx))"

text \<open>
  Lines 293 to 324 (Phase B): \<open>Some\<close> of the new state and lexer where the source returns
  true, \<open>None\<close> where it goes on to the literal openers.
\<close>

definition layout_decision ::
  "Scanner \<Rightarrow> valid_symbols \<Rightarrow> bool \<Rightarrow> 32 word \<Rightarrow> 32 word \<Rightarrow> TSLexer
     \<Rightarrow> (Scanner \<times> TSLexer) option" where
  "layout_decision s valid_symbols found_end_of_line indent_length first_comment_indent_length lx =
     (if found_end_of_line then
        if valid_symbols INDENT \<and> previous_indent_length s = 0 \<and> indent_length > 0 then
          Some (s\<lparr>previous_indent_length := ucast indent_length\<rparr>, lx\<lparr>result_symbol := INDENT\<rparr>)
        else if (valid_symbols DEDENT
                 \<or> (\<not> valid_symbols NEWLINE \<and> \<not> within_brackets valid_symbols))
              \<and> previous_indent_length s > 0
              \<and> indent_length = 0
              \<and> sint first_comment_indent_length
                    < sint (ucast (previous_indent_length s) :: 32 word) then
          Some (s\<lparr>previous_indent_length := ucast indent_length\<rparr>, lx\<lparr>result_symbol := DEDENT\<rparr>)
        else if valid_symbols NEWLINE \<and> \<not> error_recovery_mode valid_symbols then
          Some (s, lx\<lparr>result_symbol := NEWLINE\<rparr>)
        else None
      else None)"

text \<open>Lines 328 to 347: the delimiter of a string opener, its flags 0 when there is none.\<close>

definition string_opener :: "TSLexer \<Rightarrow> Delimiter \<times> TSLexer" where
  "string_opener lx =
     (if lookahead lx = ch_backquote then
        (set_end_character (Delimiter 0) ch_backquote, mark_end (advance lx))
      else if lookahead lx = ch_squote then
        (set_end_character (Delimiter 0) ch_squote, mark_end (advance lx))
      else if lookahead lx = ch_dquote then
        (set_end_character (Delimiter 0) ch_dquote, mark_end (advance lx))
      else (Delimiter 0, lx))"

text \<open>Lines 326 to 368 (Phase C).\<close>

definition literal_openers ::
  "Scanner \<Rightarrow> valid_symbols \<Rightarrow> 32 word \<Rightarrow> TSLexer \<Rightarrow> bool \<times> Scanner \<times> TSLexer" where
  "literal_openers s valid_symbols first_comment_indent_length lx =
     (let (delimiter, lx1) =
            (if first_comment_indent_length = - 1 \<and> valid_symbols STRING_START
             then string_opener lx else (Delimiter 0, lx))
      in if first_comment_indent_length = - 1 \<and> valid_symbols STRING_START
            \<and> end_character delimiter \<noteq> 0 then
           (True, s\<lparr>delimiter_stack := delimiter_stack s @ [delimiter]\<rparr>,
            lx1\<lparr>result_symbol := STRING_START\<rparr>)
         else if first_comment_indent_length = - 1 \<and> valid_symbols REGEX_START
            \<and> lookahead lx1 = ch_slash then
           (True, s, (mark_end (advance lx1))\<lparr>result_symbol := REGEX_START\<rparr>)
         else (False, s, lx1))"

text \<open>Lines 219 to 368: the layout scanner, entered after \<open>mark_end\<close>.\<close>

definition scan_layout :: "Scanner \<Rightarrow> TSLexer \<Rightarrow> valid_symbols \<Rightarrow> bool \<times> Scanner \<times> TSLexer" where
  "scan_layout s lx valid_symbols =
     (case layout_loop False 0 (- 1) (mark_end lx) of
        Inl lx1 \<Rightarrow> (False, s, lx1)
      | Inr (found_end_of_line, indent_length, first_comment_indent_length, lx1) \<Rightarrow>
          (case layout_decision s valid_symbols found_end_of_line indent_length
                  first_comment_indent_length lx1 of
             Some (s', lx') \<Rightarrow> (True, s', lx')
           | None \<Rightarrow> literal_openers s valid_symbols first_comment_indent_length lx1))"

text \<open>
  \<open>scan\<close> returns the boolean of the source with the scanner state and the lexer as
  the call leaves them.
\<close>

definition scan :: "Scanner \<Rightarrow> TSLexer \<Rightarrow> valid_symbols \<Rightarrow> bool \<times> Scanner \<times> TSLexer" where
  "scan s lx valid_symbols =
     (case scan_string_content s lx valid_symbols of
        (Some r, s1, lx1) \<Rightarrow> (r, s1, lx1)
      | (None, s1, lx1) \<Rightarrow>
          (case scan_regex_content lx1 valid_symbols of
             (Some r, lx2) \<Rightarrow> (r, s1, lx2)
           | (None, lx2) \<Rightarrow> scan_layout s1 lx2 valid_symbols))"

text \<open>
  The states reachable by scan calls from the zero state, whatever the lexer and the
  requested kinds of each call.
\<close>

inductive reachable :: "Scanner \<Rightarrow> bool" where
  reachable_zero: "reachable zero_state"
| reachable_scan: "reachable s \<Longrightarrow> scan s lx valid_symbols = (r, s', lx') \<Longrightarrow> reachable s'"

text \<open>A lexer at the start of an input, and a set of requested kinds given as a list.\<close>

definition lexer_on :: "codepoint list \<Rightarrow> TSLexer" where
  "lexer_on cs = \<lparr>input = cs, position = 0, token_start = 0, token_end = 0,
                   result_symbol = COMMENT\<rparr>"

definition requested :: "TokenType list \<Rightarrow> valid_symbols" where
  "requested ks = (\<lambda>k. k \<in> set ks)"


subsection \<open>Inputs of the content scanners\<close>

text \<open>
  The characters at which the string-content loop stops whatever was read before: the
  zero lookahead, the braces, the backslash and the closing character of the delimiter.
  The regex-content loop stops at the zero lookahead, the backslash and the slash. A
  content run is a sequence of characters that such a loop consumes one after the other:
  none of them stops the loop, and none but the first is a newline (the loops consume
  a newline only while nothing has been consumed yet).
\<close>

definition string_stop :: "codepoint \<Rightarrow> codepoint \<Rightarrow> bool" where
  "string_stop e c = (c = 0 \<or> c = ch_lbrace \<or> c = ch_rbrace \<or> c = ch_backslash \<or> c = e)"

definition regex_stop :: "codepoint \<Rightarrow> bool" where
  "regex_stop c = (c = 0 \<or> c = ch_backslash \<or> c = ch_slash)"

fun content_run :: "(codepoint \<Rightarrow> bool) \<Rightarrow> codepoint list \<Rightarrow> bool" where
  "content_run stop [] = True"
| "content_run stop (c # cs) = (\<not> stop c \<and> list_all (\<lambda>x. \<not> stop x \<and> x \<noteq> ch_newline) cs)"

text \<open>The lexer after \<open>n\<close> characters were consumed as token content.\<close>

definition consumed :: "nat \<Rightarrow> TSLexer \<Rightarrow> TSLexer" where
  "consumed n lx = lx\<lparr>input := drop n (input lx), position := position lx + n\<rparr>"


text \<open>The lexer after \<open>n\<close> characters were skipped as trivia.\<close>

definition skipped :: "nat \<Rightarrow> TSLexer \<Rightarrow> TSLexer" where
  "skipped n lx =
     (if n = 0 then lx
      else lx\<lparr>input := drop n (input lx), position := position lx + n,
              token_start := position lx + n\<rparr>)"


section \<open>Properties\<close>

subsection \<open>Evaluation of the definitions on concrete inputs\<close>

lemmas scan_eval = scan_def scan_string_content_def scan_regex_content_def scan_layout_def
  layout_decision_def literal_openers_def string_opener_def error_recovery_mode_def
  within_brackets_def requested_def lexer_on_def lookahead_def skip_def advance_def
  lexer_advance_def mark_end_def end_character_def set_end_character_def
  string_content_loop.simps regex_content_loop.simps layout_loop.simps comment_loop.simps

subsection \<open>Serialization\<close>

lemma unat_count:
  "n \<le> 255 \<Longrightarrow> unat (of_nat n :: 8 word) = n"
  by (simp add: unat_of_nat)

lemma ucast_ucast_baseline:
  fixes x :: "16 word"
  assumes "unat x < 256"
  shows "ucast (ucast x :: 8 word) = x"
proof -
  have "take_bit 8 (unat x) = unat x"
    using assms by (simp add: take_bit_nat_eq_self_iff)
  then have "unat (ucast (ucast x :: 8 word) :: 16 word) = unat x"
    by (simp add: unsigned_ucast_eq unsigned_take_bit_eq)
  then show ?thesis by (simp only: word_unat_eq_iff)
qed

lemma scast_ucast_baseline:
  fixes x :: "16 word"
  assumes "unat x < 128"
  shows "scast (ucast x :: 8 word) = x"
proof -
  have "uint x = int (unat x)" by (rule uint_nat)
  with assms have ux: "uint x < 128" "0 \<le> uint x" by linarith+
  have "uint (ucast x :: 8 word) = take_bit 8 (uint x)"
    by (simp add: unsigned_ucast_eq)
  also have "\<dots> = uint x"
    using ux by (simp add: take_bit_int_eq_self)
  finally have u: "uint (ucast x :: 8 word) = uint x" .
  have "sint (ucast x :: 8 word) = signed_take_bit 7 (uint (ucast x :: 8 word))"
    by (simp add: sint_uint)
  also have "\<dots> = uint x"
  proof -
    have "- (2 ^ 7) \<le> uint x" by (rule order_trans[of _ 0]) simp_all
    moreover have "uint x < 2 ^ 7" using ux by simp
    ultimately show ?thesis unfolding u by (rule signed_take_bit_int_eq_self)
  qed
  finally have "scast (ucast x :: 8 word) = (word_of_int (uint x) :: 16 word)"
    by (simp only: scast_eq)
  then show ?thesis by simp
qed

lemma char_to_uint16_ucast:
  "unat (x :: 16 word) < (if cs then 128 else 256) \<Longrightarrow> char_to_uint16 cs (ucast x) = x"
  by (cases cs) (simp_all add: char_to_uint16_def ucast_ucast_baseline scast_ucast_baseline)

lemma memcpy_roundtrip:
  assumes "n = length ds" and that: "k \<ge> i + n"
  shows "memcpy_from_buffer ((memcpy_to_buffer b i ds n)(k := v)) i n = ds"
proof (rule nth_equalityI)
  show "length (memcpy_from_buffer ((memcpy_to_buffer b i ds n)(k := v)) i n) = length ds"
    using assms by (simp add: memcpy_from_buffer_def)
next
  fix j assume "j < length (memcpy_from_buffer ((memcpy_to_buffer b i ds n)(k := v)) i n)"
  then have j: "j < n" by (simp add: memcpy_from_buffer_def)
  then show "memcpy_from_buffer ((memcpy_to_buffer b i ds n)(k := v)) i n ! j = ds ! j"
    using that by (simp add: memcpy_from_buffer_def memcpy_to_buffer_def)
qed


lemma length_deserialize_stack:
  "length (delimiter_stack (deserialize cs s0 b n)) \<le> 255"
proof -
  have "unat (b 0) < 256" using unsigned_less[of "b 0", where ?'a = nat] by simp
  then show ?thesis
    by (simp add: deserialize_def deserialize_reading_def Let_def memcpy_from_buffer_def)
qed

lemma scan_string_start_backquote:
  "scan s (lexer_on [ch_backquote]) (requested [STRING_START])
     = (True, s\<lparr>delimiter_stack := delimiter_stack s @ [Delimiter BackQuote]\<rparr>,
        \<lparr>input = [], position = 1, token_start = 0, token_end = 1,
           result_symbol = STRING_START\<rparr>)"
  by (simp add: scan_eval)

lemma reachable_backquotes:
  "reachable \<lparr>previous_indent_length = 0, delimiter_stack = replicate n (Delimiter BackQuote)\<rparr>"
proof (induction n)
  case 0
  show ?case using reachable_zero by (simp add: zero_state_def)
next
  case (Suc n)
  from reachable_scan[OF Suc scan_string_start_backquote]
  show ?case by (simp add: replicate_append_same)
qed

lemma scan_indent_16_tabs:
  "scan zero_state (lexer_on (ch_newline # replicate 16 ch_tab @ [120])) (requested [INDENT])
     = (True, \<lparr>previous_indent_length = 128, delimiter_stack = []\<rparr>,
        \<lparr>input = [120], position = 17, token_start = 17, token_end = 0,
           result_symbol = INDENT\<rparr>)"
  by code_simp

lemma scan_indent_32_tabs:
  "scan zero_state (lexer_on (ch_newline # replicate 32 ch_tab @ [120])) (requested [INDENT])
     = (True, \<lparr>previous_indent_length = 256, delimiter_stack = []\<rparr>,
        \<lparr>input = [120], position = 33, token_start = 33, token_end = 0,
           result_symbol = INDENT\<rparr>)"
  by code_simp

text \<open>
  C1, as stated, fails: three states reachable by scan calls from the zero state do not
  survive serialize followed by deserialize. A stack of 256 delimiters comes back with at
  most 255 (serialize caps the count at 255); the baseline 256 comes back as 0 (one byte
  is written for the 16-bit baseline); and where plain \<open>char\<close> is signed the
  baseline 128 comes back as 65408 (the byte is sign-extended).
\<close>

theorem roundtrip_counterexample:
  "reachable \<lparr>previous_indent_length = 0, delimiter_stack = replicate 256 (Delimiter BackQuote)\<rparr>
   \<and> deserialize True zero_state
        (fst (serialize \<lparr>previous_indent_length = 0,
                          delimiter_stack = replicate 256 (Delimiter BackQuote)\<rparr> (buffer_of [])))
        (snd (serialize \<lparr>previous_indent_length = 0,
                          delimiter_stack = replicate 256 (Delimiter BackQuote)\<rparr> (buffer_of [])))
      \<noteq> \<lparr>previous_indent_length = 0, delimiter_stack = replicate 256 (Delimiter BackQuote)\<rparr>
   \<and> reachable \<lparr>previous_indent_length = 256, delimiter_stack = []\<rparr>
   \<and> deserialize False zero_state
        (fst (serialize \<lparr>previous_indent_length = 256, delimiter_stack = []\<rparr> (buffer_of [])))
        (snd (serialize \<lparr>previous_indent_length = 256, delimiter_stack = []\<rparr> (buffer_of [])))
      = \<lparr>previous_indent_length = 0, delimiter_stack = []\<rparr>
   \<and> reachable \<lparr>previous_indent_length = 128, delimiter_stack = []\<rparr>
   \<and> deserialize True zero_state
        (fst (serialize \<lparr>previous_indent_length = 128, delimiter_stack = []\<rparr> (buffer_of [])))
        (snd (serialize \<lparr>previous_indent_length = 128, delimiter_stack = []\<rparr> (buffer_of [])))
      = \<lparr>previous_indent_length = 65408, delimiter_stack = []\<rparr>"
proof (intro conjI)
  show "reachable \<lparr>previous_indent_length = 0,
                   delimiter_stack = replicate 256 (Delimiter BackQuote)\<rparr>"
    by (rule reachable_backquotes)
  show "reachable \<lparr>previous_indent_length = 256, delimiter_stack = []\<rparr>"
    by (rule reachable_scan[OF reachable_zero scan_indent_32_tabs])
  show "reachable \<lparr>previous_indent_length = 128, delimiter_stack = []\<rparr>"
    by (rule reachable_scan[OF reachable_zero scan_indent_16_tabs])
  show "deserialize True zero_state
        (fst (serialize \<lparr>previous_indent_length = 0,
                          delimiter_stack = replicate 256 (Delimiter BackQuote)\<rparr> (buffer_of [])))
        (snd (serialize \<lparr>previous_indent_length = 0,
                          delimiter_stack = replicate 256 (Delimiter BackQuote)\<rparr> (buffer_of [])))
      \<noteq> \<lparr>previous_indent_length = 0, delimiter_stack = replicate 256 (Delimiter BackQuote)\<rparr>"
    (is "?d \<noteq> ?s")
  proof
    assume "?d = ?s"
    then have "length (delimiter_stack ?d) = length (delimiter_stack ?s)" by simp
    moreover have "length (delimiter_stack ?d) \<le> 255" by (rule length_deserialize_stack)
    ultimately show False by simp
  qed
  show "deserialize False zero_state
        (fst (serialize \<lparr>previous_indent_length = 256, delimiter_stack = []\<rparr> (buffer_of [])))
        (snd (serialize \<lparr>previous_indent_length = 256, delimiter_stack = []\<rparr> (buffer_of [])))
      = \<lparr>previous_indent_length = 0, delimiter_stack = []\<rparr>"
    by (simp add: serialize_def deserialize_def deserialize_reading_def zero_state_def
        char_to_uint16_def)
  show "deserialize True zero_state
        (fst (serialize \<lparr>previous_indent_length = 128, delimiter_stack = []\<rparr> (buffer_of [])))
        (snd (serialize \<lparr>previous_indent_length = 128, delimiter_stack = []\<rparr> (buffer_of [])))
      = \<lparr>previous_indent_length = 65408, delimiter_stack = []\<rparr>"
    by (simp add: serialize_def deserialize_def deserialize_reading_def zero_state_def
        char_to_uint16_def)
qed

text \<open>
  C1, amended: for every state whose delimiter stack holds at most 255 delimiters and
  whose baseline is below 128 (below 256 where plain \<open>char\<close> is unsigned),
  deserializing the bytes written by serialize, with the length it returns, gives back
  that state, the same stack in the same order and the same baseline, whatever state
  the scanner was in before.
\<close>

theorem serialize_deserialize_roundtrip:
  assumes "length (delimiter_stack s) \<le> 255"
    and "unat (previous_indent_length s) < (if char_signed then 128 else 256)"
    and "serialize s b = (b', n)"
  shows "deserialize char_signed s0 b' n = s"
proof (cases "delimiter_stack s = []")
  case True
  with assms(3) have "b' = b(0 := 0, 1 := ucast (previous_indent_length s))" "n = 2"
    by (auto simp: serialize_def Let_def)
  then show ?thesis
    using True assms(2)
    by (simp add: deserialize_def deserialize_reading_def char_to_uint16_ucast)
next
  case False
  define c where "c = length (delimiter_stack s)"
  from False have c0: "c > 0" by (simp add: c_def)
  from assms(1) have c255: "c \<le> 255" by (simp add: c_def)
  from assms(3) c0 c255
  have b': "b' = (memcpy_to_buffer (b(0 := of_nat c)) 1 (delimiter_stack s) c)
                   (1 + c := ucast (previous_indent_length s))"
    and n: "n = c + 2"
    by (auto simp: serialize_def Let_def c_def)
  have b0: "b' 0 = of_nat c"
    by (simp add: b' memcpy_to_buffer_def)
  have cnt: "unat (b' 0) = c" using c255 by (simp add: b0 unat_count)
  have stk: "memcpy_from_buffer b' 1 c = delimiter_stack s"
    unfolding b' by (rule memcpy_roundtrip) (simp_all add: c_def)
  have bl: "b' (1 + c) = ucast (previous_indent_length s)" by (simp add: b')
  show ?thesis
    using c0 assms(2)
    by (simp add: deserialize_def deserialize_reading_def Let_def n cnt stk bl
        char_to_uint16_ucast del: One_nat_def)
qed

theorem serialize_deserialize_roundtrip_witness:
  "length (delimiter_stack \<lparr>previous_indent_length = 4,
                             delimiter_stack = [Delimiter DoubleQuote, Delimiter SingleQuote]\<rparr>) \<le> 255
   \<and> unat (previous_indent_length \<lparr>previous_indent_length = 4,
                             delimiter_stack = [Delimiter DoubleQuote, Delimiter SingleQuote]\<rparr>) < 128
   \<and> deserialize True zero_state
        (fst (serialize \<lparr>previous_indent_length = 4,
               delimiter_stack = [Delimiter DoubleQuote, Delimiter SingleQuote]\<rparr> (buffer_of [])))
        (snd (serialize \<lparr>previous_indent_length = 4,
               delimiter_stack = [Delimiter DoubleQuote, Delimiter SingleQuote]\<rparr> (buffer_of [])))
      = \<lparr>previous_indent_length = 4,
          delimiter_stack = [Delimiter DoubleQuote, Delimiter SingleQuote]\<rparr>"
  using serialize_deserialize_roundtrip[of
      "\<lparr>previous_indent_length = 4,
         delimiter_stack = [Delimiter DoubleQuote, Delimiter SingleQuote]\<rparr>" True "buffer_of []"
      "fst (serialize \<lparr>previous_indent_length = 4,
               delimiter_stack = [Delimiter DoubleQuote, Delimiter SingleQuote]\<rparr> (buffer_of []))"
      "snd (serialize \<lparr>previous_indent_length = 4,
               delimiter_stack = [Delimiter DoubleQuote, Delimiter SingleQuote]\<rparr> (buffer_of []))"
      zero_state]
  by simp

text \<open>
  C2 fails on the code: deserialize with length 0 clears the delimiter stack and leaves
  the baseline as it was, so a scanner with baseline 4 still has baseline 4 afterwards.
\<close>

theorem deserialize_empty_keeps_baseline:
  "deserialize char_signed \<lparr>previous_indent_length = 4, delimiter_stack = []\<rparr> b 0
     = \<lparr>previous_indent_length = 4, delimiter_stack = []\<rparr>
   \<and> previous_indent_length (deserialize char_signed s b 0) = previous_indent_length s
   \<and> delimiter_stack (deserialize char_signed s b 0) = []"
  by (simp add: deserialize_def deserialize_reading_def)

text \<open>
  C3, as stated, fails: with a buffer whose first byte is 5 and the supplied length 1,
  deserialize reads the offsets 0 to 6.
\<close>

theorem deserialize_reads_counterexample:
  "snd (deserialize_reading True zero_state (buffer_of [5]) 1) = [0, 1, 2, 3, 4, 5, 6]"
  by (simp add: deserialize_reading_def buffer_of_def upt_rec)

lemma set_deserialize_reads:
  "set (snd (deserialize_reading cs s b len))
     = (if len = 0 then {} else {0 .. unat (b 0) + 1})"
  by (auto simp: deserialize_reading_def Let_def)

text \<open>
  C3, amended: deserialize reads nothing when the supplied length is 0; otherwise it
  reads the count byte at offset 0, the delimiter bytes after it and the baseline byte at
  offset count + 1, whatever the supplied length. So all its reads are below the supplied
  length exactly when the length is 0 or at least count + 2, which holds for every buffer
  and length that serialize produces.
\<close>

theorem deserialize_reads:
  "set (snd (deserialize_reading char_signed s b len))
      = (if len = 0 then {} else {0 .. unat (b 0) + 1})
   \<and> ((\<forall>i \<in> set (snd (deserialize_reading char_signed s b len)). i < len)
        \<longleftrightarrow> len = 0 \<or> unat (b 0) + 2 \<le> len)
   \<and> (serialize t b0 = (b, len) \<longrightarrow>
        (\<forall>i \<in> set (snd (deserialize_reading char_signed s b len)). i < len))"
proof (intro conjI impI)
  show "set (snd (deserialize_reading char_signed s b len))
      = (if len = 0 then {} else {0 .. unat (b 0) + 1})"
    by (rule set_deserialize_reads)
  show "(\<forall>i \<in> set (snd (deserialize_reading char_signed s b len)). i < len)
        \<longleftrightarrow> len = 0 \<or> unat (b 0) + 2 \<le> len"
    unfolding set_deserialize_reads by auto
  assume ser: "serialize t b0 = (b, len)"
  define c where "c = (if length (delimiter_stack t) > 255 then 255
                       else length (delimiter_stack t))"
  have c: "c \<le> 255" by (simp add: c_def)
  from ser have "b 0 = of_nat c" "len = c + 2"
    by (auto simp: serialize_def Let_def memcpy_to_buffer_def c_def)
  with c have "unat (b 0) + 2 \<le> len" by (simp add: unat_count)
  then show "\<forall>i \<in> set (snd (deserialize_reading char_signed s b len)). i < len"
    unfolding set_deserialize_reads by auto
qed

theorem deserialize_reads_witness:
  "snd (serialize \<lparr>previous_indent_length = 4,
       delimiter_stack = [Delimiter DoubleQuote, Delimiter SingleQuote]\<rparr> (buffer_of [])) = 4
   \<and> list_all (\<lambda>i. i < 4)
        (snd (deserialize_reading True zero_state
           (fst (serialize \<lparr>previous_indent_length = 4,
              delimiter_stack = [Delimiter DoubleQuote, Delimiter SingleQuote]\<rparr> (buffer_of [])))
           4))"
proof -
  let ?t = "\<lparr>previous_indent_length = 4,
       delimiter_stack = [Delimiter DoubleQuote, Delimiter SingleQuote]\<rparr>"
  have n: "snd (serialize ?t (buffer_of [])) = 4"
    by (simp add: serialize_def)
  then have ser: "serialize ?t (buffer_of []) = (fst (serialize ?t (buffer_of [])), 4)"
    by (metis prod.collapse)
  from deserialize_reads[of True zero_state "fst (serialize ?t (buffer_of []))" 4 ?t "buffer_of []"]
  have "\<forall>i \<in> set (snd (deserialize_reading True zero_state
           (fst (serialize ?t (buffer_of []))) 4)). i < 4"
    using ser by blast
  then show ?thesis using n by (simp only: list_all_iff)
qed

subsection \<open>The string-content scanner\<close>

lemma consumed_0: "consumed 0 lx = lx"
  by (simp add: consumed_def)

lemma advance_Cons:
  "input lx = c # cs \<Longrightarrow> advance lx = consumed 1 lx"
  by (simp add: advance_def lexer_advance_def consumed_def)

lemma consumed_consumed:
  "consumed m (consumed n lx) = consumed (n + m) lx"
  by (simp add: consumed_def add.commute add.left_commute)

lemma input_consumed: "input (consumed n lx) = drop n (input lx)"
  by (simp add: consumed_def)

lemma lookahead_Cons: "input lx = c # cs \<Longrightarrow> lookahead lx = c"
  by (simp add: lookahead_def)

lemma lookahead_Nil: "input lx = [] \<Longrightarrow> lookahead lx = 0"
  by (simp add: lookahead_def)

lemma string_loop_step:
  assumes "input lx = c # cs" "\<not> string_stop e c" "c = ch_newline \<longrightarrow> \<not> h"
  shows "string_content_loop e h s lx = string_content_loop e True s (consumed 1 lx)"
  using assms
  by (subst string_content_loop.simps)
     (auto simp: lookahead_Cons[OF assms(1)] advance_Cons[OF assms(1)] string_stop_def)

lemma string_loop_run:
  assumes "list_all (\<lambda>x. \<not> string_stop e x \<and> x \<noteq> ch_newline) cs" "input lx = cs @ rest"
  shows "string_content_loop e True s lx = string_content_loop e True s (consumed (length cs) lx)"
  using assms
proof (induction cs arbitrary: lx)
  case Nil
  show ?case by (simp add: consumed_0)
next
  case (Cons c cs)
  from Cons.prems have c: "\<not> string_stop e c" "c \<noteq> ch_newline"
    and cs: "list_all (\<lambda>x. \<not> string_stop e x \<and> x \<noteq> ch_newline) cs"
    and inp: "input lx = c # (cs @ rest)" by simp_all
  have "string_content_loop e True s lx = string_content_loop e True s (consumed 1 lx)"
    using inp c by (intro string_loop_step) simp_all
  also have "\<dots> = string_content_loop e True s (consumed (length cs) (consumed 1 lx))"
    using cs by (rule Cons.IH) (simp add: input_consumed inp)
  finally show ?case by (simp add: consumed_consumed)
qed

lemma string_loop_content_run:
  assumes "content_run (string_stop e) pre" "input lx = pre @ rest"
  shows "string_content_loop e False s lx
           = string_content_loop e (pre \<noteq> []) s (consumed (length pre) lx)"
proof (cases pre)
  case Nil
  then show ?thesis by (simp add: consumed_0)
next
  case (Cons c cs)
  with assms have c: "\<not> string_stop e c"
    and cs: "list_all (\<lambda>x. \<not> string_stop e x \<and> x \<noteq> ch_newline) cs"
    and inp: "input lx = c # (cs @ rest)" by simp_all
  have "string_content_loop e False s lx = string_content_loop e True s (consumed 1 lx)"
    using inp c by (intro string_loop_step) simp_all
  also have "\<dots> = string_content_loop e True s (consumed (length cs) (consumed 1 lx))"
    using cs by (rule string_loop_run) (simp add: input_consumed inp)
  finally show ?thesis using Cons by (simp add: consumed_consumed)
qed

lemma end_character_cases:
  "end_character d = 0 \<or> end_character d = ch_squote \<or> end_character d = ch_dquote
     \<or> end_character d = ch_backquote"
  by (simp add: end_character_def)

lemma string_loop_stop:
  assumes "input lx = c # rest"
  shows "c = ch_lbrace \<or> c = ch_rbrace \<or> c = ch_backslash \<Longrightarrow>
           string_content_loop e h s lx
             = (Some h, s, lx\<lparr>token_end := position lx, result_symbol := STRING_CONTENT\<rparr>)"
    and "c = e \<Longrightarrow> e \<noteq> 0 \<Longrightarrow> e \<noteq> ch_lbrace \<Longrightarrow> e \<noteq> ch_rbrace \<Longrightarrow> e \<noteq> ch_backslash \<Longrightarrow>
           string_content_loop e True s lx
             = (Some True, s, lx\<lparr>token_end := position lx, result_symbol := STRING_CONTENT\<rparr>)"
    and "c = e \<Longrightarrow> e \<noteq> 0 \<Longrightarrow> e \<noteq> ch_lbrace \<Longrightarrow> e \<noteq> ch_rbrace \<Longrightarrow> e \<noteq> ch_backslash \<Longrightarrow>
           string_content_loop e False s lx
             = (Some True, s\<lparr>delimiter_stack := butlast (delimiter_stack s)\<rparr>,
                lx\<lparr>input := rest, position := Suc (position lx),
                   token_end := Suc (position lx), result_symbol := STRING_END\<rparr>)"
    and "c = ch_newline \<Longrightarrow> e \<noteq> ch_newline \<Longrightarrow>
           string_content_loop e True s lx = (Some False, s, lx)"
proof -
  note la = lookahead_Cons[OF assms]
  show "c = ch_lbrace \<or> c = ch_rbrace \<or> c = ch_backslash \<Longrightarrow>
           string_content_loop e h s lx
             = (Some h, s, lx\<lparr>token_end := position lx, result_symbol := STRING_CONTENT\<rparr>)"
    by (subst string_content_loop.simps) (auto simp: la mark_end_def)
  show "c = e \<Longrightarrow> e \<noteq> 0 \<Longrightarrow> e \<noteq> ch_lbrace \<Longrightarrow> e \<noteq> ch_rbrace \<Longrightarrow> e \<noteq> ch_backslash \<Longrightarrow>
           string_content_loop e True s lx
             = (Some True, s, lx\<lparr>token_end := position lx, result_symbol := STRING_CONTENT\<rparr>)"
    by (subst string_content_loop.simps) (simp add: la mark_end_def)
  show "c = e \<Longrightarrow> e \<noteq> 0 \<Longrightarrow> e \<noteq> ch_lbrace \<Longrightarrow> e \<noteq> ch_rbrace \<Longrightarrow> e \<noteq> ch_backslash \<Longrightarrow>
           string_content_loop e False s lx
             = (Some True, s\<lparr>delimiter_stack := butlast (delimiter_stack s)\<rparr>,
                lx\<lparr>input := rest, position := Suc (position lx),
                   token_end := Suc (position lx), result_symbol := STRING_END\<rparr>)"
    using assms by (subst string_content_loop.simps) (simp add: la mark_end_def lexer_advance_def)
  show "c = ch_newline \<Longrightarrow> e \<noteq> ch_newline \<Longrightarrow>
           string_content_loop e True s lx = (Some False, s, lx)"
    by (subst string_content_loop.simps) (simp add: la)
qed

lemma scan_string_returns:
  assumes "valid_symbols STRING_CONTENT" "delimiter_stack s \<noteq> []"
    "\<not> error_recovery_mode valid_symbols"
    "string_content_loop (end_character (last (delimiter_stack s))) False s lx = (Some r, s', lx')"
  shows "scan s lx valid_symbols = (r, s', lx')"
  using assms by (simp add: scan_def scan_string_content_def)


text \<open>
  C4: when string-content is requested, the delimiter stack is not empty and the call is
  not in the recovery situation, let \<open>e\<close> be the closing character of the top
  delimiter and let the input start with a content run \<open>pre\<close> followed by the
  character \<open>c\<close>. If \<open>c\<close> is a brace or a backslash, scan stops with
  \<open>c\<close> unconsumed, the token end marked before it and STRING_CONTENT as the kind,
  and returns true exactly when \<open>pre\<close> is not empty. If \<open>c\<close> is the closing
  character and \<open>pre\<close> is not empty, scan returns true with STRING_CONTENT, the
  quote unconsumed and the stack unchanged; if \<open>pre\<close> is empty, scan consumes the
  quote, pops one delimiter and returns true with STRING_END. If \<open>c\<close> is a newline
  and \<open>pre\<close> is not empty, scan returns false.
\<close>

theorem string_content_scanner:
  assumes "valid_symbols STRING_CONTENT"
    and "delimiter_stack s \<noteq> []"
    and "\<not> error_recovery_mode valid_symbols"
    and "e = end_character (last (delimiter_stack s))"
    and "content_run (string_stop e) pre"
    and "input lx = pre @ c # rest"
  shows "(c = ch_lbrace \<or> c = ch_rbrace \<or> c = ch_backslash \<longrightarrow>
            scan s lx valid_symbols
              = (pre \<noteq> [], s,
                 lx\<lparr>input := c # rest, position := position lx + length pre,
                    token_end := position lx + length pre, result_symbol := STRING_CONTENT\<rparr>))
       \<and> (c = e \<and> e \<noteq> 0 \<and> pre \<noteq> [] \<longrightarrow>
            scan s lx valid_symbols
              = (True, s,
                 lx\<lparr>input := c # rest, position := position lx + length pre,
                    token_end := position lx + length pre, result_symbol := STRING_CONTENT\<rparr>))
       \<and> (c = e \<and> e \<noteq> 0 \<and> pre = [] \<longrightarrow>
            scan s lx valid_symbols
              = (True, s\<lparr>delimiter_stack := butlast (delimiter_stack s)\<rparr>,
                 lx\<lparr>input := rest, position := position lx + 1,
                    token_end := position lx + 1, result_symbol := STRING_END\<rparr>))
       \<and> (c = ch_newline \<and> pre \<noteq> [] \<longrightarrow>
            scan s lx valid_symbols
              = (False, s, lx\<lparr>input := c # rest, position := position lx + length pre\<rparr>))"
proof -
  let ?lx = "consumed (length pre) lx"
  have run: "string_content_loop e False s lx = string_content_loop e (pre \<noteq> []) s ?lx"
    using assms(5,6) by (rule string_loop_content_run)
  have inp: "input ?lx = c # rest"
    using assms(6) by (simp add: input_consumed)
  have e: "e \<noteq> ch_lbrace" "e \<noteq> ch_rbrace" "e \<noteq> ch_backslash" "e \<noteq> ch_newline"
    using end_character_cases[of "last (delimiter_stack s)"] assms(4) by auto
  note ret = scan_string_returns[OF assms(1-3), folded assms(4)]
  have lxc: "?lx = lx\<lparr>input := c # rest, position := position lx + length pre\<rparr>"
    using assms(6) by (simp add: consumed_def)
  show ?thesis
  proof (intro conjI impI)
    assume "c = ch_lbrace \<or> c = ch_rbrace \<or> c = ch_backslash"
    from string_loop_stop(1)[OF inp this]
    have "string_content_loop e False s lx
            = (Some (pre \<noteq> []), s, ?lx\<lparr>token_end := position ?lx, result_symbol := STRING_CONTENT\<rparr>)"
      by (simp add: run)
    from ret[OF this] show "scan s lx valid_symbols
              = (pre \<noteq> [], s,
                 lx\<lparr>input := c # rest, position := position lx + length pre,
                    token_end := position lx + length pre, result_symbol := STRING_CONTENT\<rparr>)"
      by (simp add: lxc)
  next
    assume "c = e \<and> e \<noteq> 0 \<and> pre \<noteq> []"
    then have c: "c = e" "e \<noteq> 0" "pre \<noteq> []" by simp_all
    from string_loop_stop(2)[OF inp c(1,2) e(1-3)] c(3)
    have "string_content_loop e False s lx
            = (Some True, s, ?lx\<lparr>token_end := position ?lx, result_symbol := STRING_CONTENT\<rparr>)"
      by (simp add: run)
    from ret[OF this] show "scan s lx valid_symbols
              = (True, s,
                 lx\<lparr>input := c # rest, position := position lx + length pre,
                    token_end := position lx + length pre, result_symbol := STRING_CONTENT\<rparr>)"
      by (simp add: lxc)
  next
    assume "c = e \<and> e \<noteq> 0 \<and> pre = []"
    then have c: "c = e" "e \<noteq> 0" "pre = []" by simp_all
    from string_loop_stop(3)[OF inp c(1,2) e(1-3)] c(3)
    have "string_content_loop e False s lx
            = (Some True, s\<lparr>delimiter_stack := butlast (delimiter_stack s)\<rparr>,
                ?lx\<lparr>input := rest, position := Suc (position ?lx),
                   token_end := Suc (position ?lx), result_symbol := STRING_END\<rparr>)"
      by (simp add: run)
    from ret[OF this] show "scan s lx valid_symbols
              = (True, s\<lparr>delimiter_stack := butlast (delimiter_stack s)\<rparr>,
                 lx\<lparr>input := rest, position := position lx + 1,
                    token_end := position lx + 1, result_symbol := STRING_END\<rparr>)"
      using c(3) by (simp add: consumed_0)
  next
    assume "c = ch_newline \<and> pre \<noteq> []"
    then have c: "c = ch_newline" "pre \<noteq> []" by simp_all
    from string_loop_stop(4)[OF inp c(1) e(4)] c(2)
    have "string_content_loop e False s lx = (Some False, s, ?lx)"
      by (simp add: run)
    from ret[OF this] show "scan s lx valid_symbols
              = (False, s, lx\<lparr>input := c # rest, position := position lx + length pre\<rparr>)"
      by (simp add: lxc)
  qed
qed

theorem string_content_scanner_witness:
  "scan \<lparr>previous_indent_length = 4, delimiter_stack = [Delimiter DoubleQuote]\<rparr>
        (lexer_on [97, 98, ch_lbrace, 120, ch_rbrace]) (requested [STRING_CONTENT])
     = (True, \<lparr>previous_indent_length = 4, delimiter_stack = [Delimiter DoubleQuote]\<rparr>,
        \<lparr>input = [ch_lbrace, 120, ch_rbrace], position = 2, token_start = 0, token_end = 2,
           result_symbol = STRING_CONTENT\<rparr>)
   \<and> scan \<lparr>previous_indent_length = 4, delimiter_stack = [Delimiter DoubleQuote]\<rparr>
        (lexer_on [97, ch_dquote]) (requested [STRING_CONTENT])
     = (True, \<lparr>previous_indent_length = 4, delimiter_stack = [Delimiter DoubleQuote]\<rparr>,
        \<lparr>input = [ch_dquote], position = 1, token_start = 0, token_end = 1,
           result_symbol = STRING_CONTENT\<rparr>)
   \<and> scan \<lparr>previous_indent_length = 4, delimiter_stack = [Delimiter DoubleQuote]\<rparr>
        (lexer_on [ch_dquote, 120]) (requested [STRING_CONTENT])
     = (True, \<lparr>previous_indent_length = 4, delimiter_stack = []\<rparr>,
        \<lparr>input = [120], position = 1, token_start = 0, token_end = 1,
           result_symbol = STRING_END\<rparr>)
   \<and> scan \<lparr>previous_indent_length = 4, delimiter_stack = [Delimiter DoubleQuote]\<rparr>
        (lexer_on [97, ch_newline]) (requested [STRING_CONTENT])
     = (False, \<lparr>previous_indent_length = 4, delimiter_stack = [Delimiter DoubleQuote]\<rparr>,
        \<lparr>input = [ch_newline], position = 1, token_start = 0, token_end = 0,
           result_symbol = COMMENT\<rparr>)"
proof -
  let ?s = "\<lparr>previous_indent_length = 4, delimiter_stack = [Delimiter DoubleQuote]\<rparr>"
  let ?v = "requested [STRING_CONTENT]"
  have h: "?v STRING_CONTENT" "delimiter_stack ?s \<noteq> []" "\<not> error_recovery_mode ?v"
    "ch_dquote = end_character (last (delimiter_stack ?s))"
    by (simp_all add: requested_def error_recovery_mode_def end_character_def)
  have r2: "content_run (string_stop ch_dquote) [97, 98]"
    and r1: "content_run (string_stop ch_dquote) [97]"
    and r0: "content_run (string_stop ch_dquote) []"
    by (simp_all add: string_stop_def)
  have i1: "input (lexer_on [97, 98, ch_lbrace, 120, ch_rbrace])
              = [97, 98] @ ch_lbrace # [120, ch_rbrace]"
    and i2: "input (lexer_on [97, ch_dquote]) = [97] @ ch_dquote # []"
    and i3: "input (lexer_on [ch_dquote, 120]) = [] @ ch_dquote # [120]"
    and i4: "input (lexer_on [97, ch_newline]) = [97] @ ch_newline # []"
    by (simp_all add: lexer_on_def)
  from string_content_scanner[OF h r2 i1]
  have c1: "scan ?s (lexer_on [97, 98, ch_lbrace, 120, ch_rbrace]) ?v
     = (True, ?s, \<lparr>input = [ch_lbrace, 120, ch_rbrace], position = 2, token_start = 0,
           token_end = 2, result_symbol = STRING_CONTENT\<rparr>)"
    by (simp add: lexer_on_def)
  from string_content_scanner[OF h r1 i2]
  have c2: "scan ?s (lexer_on [97, ch_dquote]) ?v
     = (True, ?s, \<lparr>input = [ch_dquote], position = 1, token_start = 0, token_end = 1,
           result_symbol = STRING_CONTENT\<rparr>)"
    by (simp add: lexer_on_def)
  from string_content_scanner[OF h r0 i3]
  have c3: "scan ?s (lexer_on [ch_dquote, 120]) ?v
     = (True, \<lparr>previous_indent_length = 4, delimiter_stack = []\<rparr>,
        \<lparr>input = [120], position = 1, token_start = 0, token_end = 1,
           result_symbol = STRING_END\<rparr>)"
    by (simp add: lexer_on_def)
  from string_content_scanner[OF h r1 i4]
  have c4: "scan ?s (lexer_on [97, ch_newline]) ?v
     = (False, ?s, \<lparr>input = [ch_newline], position = 1, token_start = 0, token_end = 0,
           result_symbol = COMMENT\<rparr>)"
    by (simp add: lexer_on_def)
  from c1 c2 c3 c4 show ?thesis by (intro conjI)
qed


subsection \<open>The regex-content scanner\<close>

lemma regex_loop_step:
  assumes "input lx = c # cs" "\<not> regex_stop c" "c = ch_newline \<longrightarrow> \<not> h"
  shows "regex_content_loop h lx = regex_content_loop True (consumed 1 lx)"
  using assms
  by (subst regex_content_loop.simps)
     (auto simp: lookahead_Cons[OF assms(1)] advance_Cons[OF assms(1)] regex_stop_def)

lemma regex_loop_run:
  assumes "list_all (\<lambda>x. \<not> regex_stop x \<and> x \<noteq> ch_newline) cs" "input lx = cs @ rest"
  shows "regex_content_loop True lx = regex_content_loop True (consumed (length cs) lx)"
  using assms
proof (induction cs arbitrary: lx)
  case Nil
  show ?case by (simp add: consumed_0)
next
  case (Cons c cs)
  from Cons.prems have c: "\<not> regex_stop c" "c \<noteq> ch_newline"
    and cs: "list_all (\<lambda>x. \<not> regex_stop x \<and> x \<noteq> ch_newline) cs"
    and inp: "input lx = c # (cs @ rest)" by simp_all
  have "regex_content_loop True lx = regex_content_loop True (consumed 1 lx)"
    using inp c by (intro regex_loop_step) simp_all
  also have "\<dots> = regex_content_loop True (consumed (length cs) (consumed 1 lx))"
    using cs by (rule Cons.IH) (simp add: input_consumed inp)
  finally show ?case by (simp add: consumed_consumed)
qed

lemma regex_loop_content_run:
  assumes "content_run regex_stop pre" "input lx = pre @ rest"
  shows "regex_content_loop False lx = regex_content_loop (pre \<noteq> []) (consumed (length pre) lx)"
proof (cases pre)
  case Nil
  then show ?thesis by (simp add: consumed_0)
next
  case (Cons c cs)
  with assms have c: "\<not> regex_stop c"
    and cs: "list_all (\<lambda>x. \<not> regex_stop x \<and> x \<noteq> ch_newline) cs"
    and inp: "input lx = c # (cs @ rest)" by simp_all
  have "regex_content_loop False lx = regex_content_loop True (consumed 1 lx)"
    using inp c by (intro regex_loop_step) simp_all
  also have "\<dots> = regex_content_loop True (consumed (length cs) (consumed 1 lx))"
    using cs by (rule regex_loop_run) (simp add: input_consumed inp)
  finally show ?thesis using Cons by (simp add: consumed_consumed)
qed

lemma regex_loop_stop:
  assumes "input lx = c # rest"
  shows "c = ch_backslash \<Longrightarrow>
           regex_content_loop h lx
             = (Some h, lx\<lparr>token_end := position lx, result_symbol := REGEX_CONTENT\<rparr>)"
    and "c = ch_slash \<Longrightarrow>
           regex_content_loop True lx
             = (Some True, lx\<lparr>token_end := position lx, result_symbol := REGEX_CONTENT\<rparr>)"
    and "c = ch_slash \<Longrightarrow>
           regex_content_loop False lx
             = (Some True, lx\<lparr>input := rest, position := Suc (position lx),
                   token_end := Suc (position lx), result_symbol := REGEX_END\<rparr>)"
    and "c = ch_newline \<Longrightarrow> regex_content_loop True lx = (Some False, lx)"
proof -
  note la = lookahead_Cons[OF assms]
  show "c = ch_backslash \<Longrightarrow>
           regex_content_loop h lx
             = (Some h, lx\<lparr>token_end := position lx, result_symbol := REGEX_CONTENT\<rparr>)"
    by (subst regex_content_loop.simps) (simp add: la mark_end_def)
  show "c = ch_slash \<Longrightarrow>
           regex_content_loop True lx
             = (Some True, lx\<lparr>token_end := position lx, result_symbol := REGEX_CONTENT\<rparr>)"
    by (subst regex_content_loop.simps) (simp add: la mark_end_def)
  show "c = ch_slash \<Longrightarrow>
           regex_content_loop False lx
             = (Some True, lx\<lparr>input := rest, position := Suc (position lx),
                   token_end := Suc (position lx), result_symbol := REGEX_END\<rparr>)"
    using assms by (subst regex_content_loop.simps) (simp add: la mark_end_def lexer_advance_def)
  show "c = ch_newline \<Longrightarrow> regex_content_loop True lx = (Some False, lx)"
    by (subst regex_content_loop.simps) (simp add: la)
qed

lemma regex_loop_end:
  "lookahead lx = 0 \<Longrightarrow> regex_content_loop h lx = (None, lx)"
  by (subst regex_content_loop.simps) simp

lemma regex_loop_None:
  "regex_content_loop h lx = (None, lx') \<Longrightarrow> lookahead lx' = 0"
proof (induction h lx rule: regex_content_loop.induct)
  case (1 h lx)
  show ?case
  proof (cases "lookahead lx \<noteq> 0 \<and> lookahead lx \<noteq> ch_backslash \<and> lookahead lx \<noteq> ch_slash
                \<and> \<not> (lookahead lx = ch_newline \<and> h)")
    case True
    then have "regex_content_loop h lx = regex_content_loop True (advance lx)"
      by (subst regex_content_loop.simps) auto
    with "1.prems" have "regex_content_loop True (advance lx) = (None, lx')" by simp
    with True show ?thesis by (intro "1.IH") simp_all
  next
    case False
    with "1.prems" show ?thesis
      by (subst (asm) regex_content_loop.simps) (auto split: if_splits)
  qed
qed

lemma sint_ucast_baseline:
  "sint (ucast (p :: 16 word) :: 32 word) = uint p"
proof -
  have "uint p < 2 ^ 16" using uint_lt2p[of p] by simp
  then have "uint p < 2 ^ 31" by simp
  moreover have "- (2 ^ 31) \<le> uint p" by (rule order_trans[of _ 0]) simp_all
  ultimately have "signed_take_bit 31 (uint p) = uint p"
    by (rule signed_take_bit_int_eq_self[rotated])
  then show ?thesis by (simp add: signed_ucast_eq)
qed

lemma layout_loop_zero:
  "lookahead lx = 0 \<Longrightarrow> layout_loop f i c lx = Inr (True, 0, c, lx)"
  by (subst layout_loop.simps) simp

lemma scan_layout_zero:
  assumes "lookahead lx = 0"
  shows "scan_layout s lx v =
     (if (v DEDENT \<or> (\<not> v NEWLINE \<and> \<not> within_brackets v))
          \<and> previous_indent_length s \<noteq> 0 then
        (True, s\<lparr>previous_indent_length := 0\<rparr>,
         lx\<lparr>token_end := position lx, result_symbol := DEDENT\<rparr>)
      else if v NEWLINE \<and> \<not> error_recovery_mode v then
        (True, s, lx\<lparr>token_end := position lx, result_symbol := NEWLINE\<rparr>)
      else (False, s, lx\<lparr>token_end := position lx\<rparr>))"
proof -
  have la: "lookahead (mark_end lx) = 0" using assms by (simp add: lookahead_def mark_end_def)
  have "(- 1 :: int) < uint (previous_indent_length s)"
    by (rule less_le_trans[of _ 0]) simp_all
  then have neg: "sint (- 1 :: 32 word) < sint (ucast (previous_indent_length s) :: 32 word)"
    by (simp add: sint_ucast_baseline)
  have pos: "(0 < previous_indent_length s) = (previous_indent_length s \<noteq> 0)"
    by (simp add: word_gt_0)
  show ?thesis
    using la neg
    by (simp add: scan_layout_def layout_loop_zero layout_decision_def literal_openers_def
        string_opener_def end_character_def pos mark_end_def)
qed

lemma scan_regex_dispatch:
  assumes "v REGEX_CONTENT" "\<not> error_recovery_mode v"
    "\<not> (v STRING_CONTENT \<and> delimiter_stack s \<noteq> [])"
  shows "scan s lx v =
     (case regex_content_loop False lx of
        (Some r, lx2) \<Rightarrow> (r, s, lx2)
      | (None, lx2) \<Rightarrow> scan_layout s lx2 v)"
  using assms by (auto simp: scan_def scan_string_content_def scan_regex_content_def)

lemma scan_regex_returns:
  assumes "v REGEX_CONTENT" "\<not> error_recovery_mode v"
    "\<not> (v STRING_CONTENT \<and> delimiter_stack s \<noteq> [])"
    "regex_content_loop False lx = (Some r, lx')"
  shows "scan s lx v = (r, s, lx')"
  using assms(4) by (simp add: scan_regex_dispatch[OF assms(1-3)])

lemma scan_regex_falls:
  assumes "v REGEX_CONTENT" "\<not> error_recovery_mode v"
    "\<not> (v STRING_CONTENT \<and> delimiter_stack s \<noteq> [])"
    "regex_content_loop False lx = (None, lx')"
  shows "scan s lx v =
     (if (v DEDENT \<or> (\<not> v NEWLINE \<and> \<not> within_brackets v))
          \<and> previous_indent_length s \<noteq> 0 then
        (True, s\<lparr>previous_indent_length := 0\<rparr>,
         lx'\<lparr>token_end := position lx', result_symbol := DEDENT\<rparr>)
      else if v NEWLINE then
        (True, s, lx'\<lparr>token_end := position lx', result_symbol := NEWLINE\<rparr>)
      else (False, s, lx'\<lparr>token_end := position lx'\<rparr>))"
  using assms(2,4) scan_layout_zero[OF regex_loop_None[OF assms(4)], of s v]
  by (simp add: scan_regex_dispatch[OF assms(1-3)])

lemma scan_regex_stack:
  assumes "v REGEX_CONTENT" "\<not> error_recovery_mode v"
    "\<not> (v STRING_CONTENT \<and> delimiter_stack s \<noteq> [])"
  shows "delimiter_stack (fst (snd (scan s lx v))) = delimiter_stack s"
proof (cases "regex_content_loop False lx")
  case (Pair r lx')
  show ?thesis
  proof (cases r)
    case None
    with Pair scan_regex_falls[OF assms, of lx lx'] show ?thesis by simp
  next
    case (Some b)
    with Pair scan_regex_returns[OF assms, of lx b lx'] show ?thesis by simp
  qed
qed

lemma scan_regex_stack_unread:
  assumes "v REGEX_CONTENT" "\<not> error_recovery_mode v"
    "\<not> (v STRING_CONTENT \<and> delimiter_stack s \<noteq> [])"
    "\<not> (v STRING_CONTENT \<and> ds \<noteq> [])"
  shows "scan (s\<lparr>delimiter_stack := ds\<rparr>) lx v
           = (fst (scan s lx v), (fst (snd (scan s lx v)))\<lparr>delimiter_stack := ds\<rparr>,
              snd (snd (scan s lx v)))"
proof -
  have a3: "\<not> (v STRING_CONTENT \<and> delimiter_stack (s\<lparr>delimiter_stack := ds\<rparr>) \<noteq> [])"
    using assms(4) by simp
  show ?thesis
  proof (cases "regex_content_loop False lx")
    case (Pair r lx')
    show ?thesis
    proof (cases r)
      case None
      with Pair scan_regex_falls[OF assms(1-3), of lx lx']
        scan_regex_falls[OF assms(1,2) a3, of lx lx'] show ?thesis by simp
    next
      case (Some b)
      with Pair scan_regex_returns[OF assms(1-3), of lx b lx']
        scan_regex_returns[OF assms(1,2) a3, of lx b lx'] show ?thesis by simp
    qed
  qed
qed

text \<open>
  C7, as stated, fails at the end of the input: with the baseline 4 and only
  regex-content requested, scan on the input \<open>a\<close> consumes the character, reaches
  the end of the input, and returns true with DEDENT, resetting the baseline to 0.
\<close>

theorem regex_end_of_input_counterexample:
  "scan \<lparr>previous_indent_length = 4, delimiter_stack = []\<rparr> (lexer_on [97])
        (requested [REGEX_CONTENT])
     = (True, \<lparr>previous_indent_length = 0, delimiter_stack = []\<rparr>,
        \<lparr>input = [], position = 1, token_start = 0, token_end = 1, result_symbol = DEDENT\<rparr>)"
  by (simp add: scan_eval)


text \<open>
  C7, amended: when regex-content is requested, the call is not in the recovery situation
  and the string-content scanner does not run (string-content is not requested or the
  stack is empty), let the input start with a content run \<open>pre\<close>. On a backslash
  after it, scan stops with the backslash unconsumed and REGEX_CONTENT as the kind, and
  returns true exactly when \<open>pre\<close> is not empty. On a slash after a nonempty
  \<open>pre\<close> it returns true with REGEX_CONTENT and the slash unconsumed; on a slash at
  the start it consumes the slash and returns true with REGEX_END. On a newline after a
  nonempty \<open>pre\<close> it returns false. When the input ends after \<open>pre\<close>, the
  call goes on into the layout scanner at the end of the input: it commits DEDENT and
  resets the baseline to 0 when the baseline is not 0 and DEDENT is requested or neither
  NEWLINE nor a bracket-close kind is; otherwise it commits NEWLINE when NEWLINE is
  requested; otherwise it returns false. On every input the delimiter stack after the
  call is the stack before it, and the outcome does not depend on the stack.
\<close>

theorem regex_content_scanner:
  assumes "valid_symbols REGEX_CONTENT"
    and "\<not> error_recovery_mode valid_symbols"
    and "\<not> (valid_symbols STRING_CONTENT \<and> delimiter_stack s \<noteq> [])"
    and "content_run regex_stop pre"
  shows "(input lx = pre @ ch_backslash # rest \<longrightarrow>
            scan s lx valid_symbols
              = (pre \<noteq> [], s,
                 lx\<lparr>input := ch_backslash # rest, position := position lx + length pre,
                    token_end := position lx + length pre, result_symbol := REGEX_CONTENT\<rparr>))
       \<and> (input lx = pre @ ch_slash # rest \<and> pre \<noteq> [] \<longrightarrow>
            scan s lx valid_symbols
              = (True, s,
                 lx\<lparr>input := ch_slash # rest, position := position lx + length pre,
                    token_end := position lx + length pre, result_symbol := REGEX_CONTENT\<rparr>))
       \<and> (input lx = ch_slash # rest \<longrightarrow>
            scan s lx valid_symbols
              = (True, s,
                 lx\<lparr>input := rest, position := position lx + 1,
                    token_end := position lx + 1, result_symbol := REGEX_END\<rparr>))
       \<and> (input lx = pre @ ch_newline # rest \<and> pre \<noteq> [] \<longrightarrow>
            scan s lx valid_symbols
              = (False, s,
                 lx\<lparr>input := ch_newline # rest, position := position lx + length pre\<rparr>))
       \<and> (input lx = pre \<longrightarrow>
            scan s lx valid_symbols
              = (if (valid_symbols DEDENT
                     \<or> (\<not> valid_symbols NEWLINE \<and> \<not> within_brackets valid_symbols))
                    \<and> previous_indent_length s \<noteq> 0 then
                   (True, s\<lparr>previous_indent_length := 0\<rparr>,
                    lx\<lparr>input := [], position := position lx + length pre,
                       token_end := position lx + length pre, result_symbol := DEDENT\<rparr>)
                 else if valid_symbols NEWLINE then
                   (True, s,
                    lx\<lparr>input := [], position := position lx + length pre,
                       token_end := position lx + length pre, result_symbol := NEWLINE\<rparr>)
                 else
                   (False, s,
                    lx\<lparr>input := [], position := position lx + length pre,
                       token_end := position lx + length pre\<rparr>)))
       \<and> delimiter_stack (fst (snd (scan s lx valid_symbols))) = delimiter_stack s
       \<and> (\<forall>ds. \<not> (valid_symbols STRING_CONTENT \<and> ds \<noteq> []) \<longrightarrow>
            scan (s\<lparr>delimiter_stack := ds\<rparr>) lx valid_symbols
              = (fst (scan s lx valid_symbols),
                 (fst (snd (scan s lx valid_symbols)))\<lparr>delimiter_stack := ds\<rparr>,
                 snd (snd (scan s lx valid_symbols))))"
proof (intro conjI impI allI)
  note ret = scan_regex_returns[OF assms(1-3)]
  let ?lx = "consumed (length pre) lx"
  {
    fix c assume inp0: "input lx = pre @ c # rest"
    then have "regex_content_loop False lx = regex_content_loop (pre \<noteq> []) ?lx"
      "input ?lx = c # rest" "?lx = lx\<lparr>input := c # rest, position := position lx + length pre\<rparr>"
      using regex_loop_content_run[OF assms(4), of lx "c # rest"]
      by (simp_all add: consumed_def)
  } note run = this
  {
    assume inp0: "input lx = pre @ ch_backslash # rest"
    from regex_loop_stop(1)[OF run(2)[OF inp0], of "pre \<noteq> []"]
    have "regex_content_loop False lx
            = (Some (pre \<noteq> []), ?lx\<lparr>token_end := position ?lx, result_symbol := REGEX_CONTENT\<rparr>)"
      by (simp add: run(1)[OF inp0])
    from ret[OF this] show "scan s lx valid_symbols
              = (pre \<noteq> [], s,
                 lx\<lparr>input := ch_backslash # rest, position := position lx + length pre,
                    token_end := position lx + length pre, result_symbol := REGEX_CONTENT\<rparr>)"
      by (simp add: run(3)[OF inp0])
  }
  {
    assume "input lx = pre @ ch_slash # rest \<and> pre \<noteq> []"
    then have inp0: "input lx = pre @ ch_slash # rest" and ne: "pre \<noteq> []" by simp_all
    from regex_loop_stop(2)[OF run(2)[OF inp0]] ne
    have "regex_content_loop False lx
            = (Some True, ?lx\<lparr>token_end := position ?lx, result_symbol := REGEX_CONTENT\<rparr>)"
      by (simp add: run(1)[OF inp0])
    from ret[OF this] show "scan s lx valid_symbols
              = (True, s,
                 lx\<lparr>input := ch_slash # rest, position := position lx + length pre,
                    token_end := position lx + length pre, result_symbol := REGEX_CONTENT\<rparr>)"
      by (simp add: run(3)[OF inp0])
  }
  {
    assume inp0: "input lx = ch_slash # rest"
    from ret[OF regex_loop_stop(3)[OF inp0 refl]]
    show "scan s lx valid_symbols
              = (True, s,
                 lx\<lparr>input := rest, position := position lx + 1,
                    token_end := position lx + 1, result_symbol := REGEX_END\<rparr>)"
      by simp
  }
  {
    assume "input lx = pre @ ch_newline # rest \<and> pre \<noteq> []"
    then have inp0: "input lx = pre @ ch_newline # rest" and ne: "pre \<noteq> []" by simp_all
    from regex_loop_stop(4)[OF run(2)[OF inp0]] ne
    have "regex_content_loop False lx = (Some False, ?lx)"
      by (simp add: run(1)[OF inp0])
    from ret[OF this] show "scan s lx valid_symbols
              = (False, s,
                 lx\<lparr>input := ch_newline # rest, position := position lx + length pre\<rparr>)"
      by (simp add: run(3)[OF inp0])
  }
  {
    assume inp0: "input lx = pre"
    then have "regex_content_loop False lx = regex_content_loop (pre \<noteq> []) ?lx"
      using regex_loop_content_run[OF assms(4), of lx "[]"] by simp
    moreover have "input ?lx = []" using inp0 by (simp add: consumed_def)
    ultimately have "regex_content_loop False lx = (None, ?lx)"
      by (simp add: regex_loop_end lookahead_Nil)
    from scan_regex_falls[OF assms(1-3) this]
    show "scan s lx valid_symbols
              = (if (valid_symbols DEDENT
                     \<or> (\<not> valid_symbols NEWLINE \<and> \<not> within_brackets valid_symbols))
                    \<and> previous_indent_length s \<noteq> 0 then
                   (True, s\<lparr>previous_indent_length := 0\<rparr>,
                    lx\<lparr>input := [], position := position lx + length pre,
                       token_end := position lx + length pre, result_symbol := DEDENT\<rparr>)
                 else if valid_symbols NEWLINE then
                   (True, s,
                    lx\<lparr>input := [], position := position lx + length pre,
                       token_end := position lx + length pre, result_symbol := NEWLINE\<rparr>)
                 else
                   (False, s,
                    lx\<lparr>input := [], position := position lx + length pre,
                       token_end := position lx + length pre\<rparr>))"
      using inp0 by (simp add: consumed_def)
  }
  show "delimiter_stack (fst (snd (scan s lx valid_symbols))) = delimiter_stack s"
    by (rule scan_regex_stack[OF assms(1-3)])
  {
    fix ds :: "Delimiter list" assume "\<not> (valid_symbols STRING_CONTENT \<and> ds \<noteq> [])"
    from scan_regex_stack_unread[OF assms(1-3) this]
    show "scan (s\<lparr>delimiter_stack := ds\<rparr>) lx valid_symbols
              = (fst (scan s lx valid_symbols),
                 (fst (snd (scan s lx valid_symbols)))\<lparr>delimiter_stack := ds\<rparr>,
                 snd (snd (scan s lx valid_symbols)))" .
  }
qed

theorem regex_content_scanner_witness:
  "scan \<lparr>previous_indent_length = 0, delimiter_stack = []\<rparr>
        (lexer_on [97, ch_backslash, ch_slash, 98, ch_slash]) (requested [REGEX_CONTENT])
     = (True, \<lparr>previous_indent_length = 0, delimiter_stack = []\<rparr>,
        \<lparr>input = [ch_backslash, ch_slash, 98, ch_slash], position = 1, token_start = 0,
           token_end = 1, result_symbol = REGEX_CONTENT\<rparr>)
   \<and> scan \<lparr>previous_indent_length = 0, delimiter_stack = []\<rparr>
        (lexer_on [ch_slash, 98, ch_slash]) (requested [REGEX_CONTENT])
     = (True, \<lparr>previous_indent_length = 0, delimiter_stack = []\<rparr>,
        \<lparr>input = [98, ch_slash], position = 1, token_start = 0,
           token_end = 1, result_symbol = REGEX_END\<rparr>)
   \<and> scan \<lparr>previous_indent_length = 0, delimiter_stack = []\<rparr>
        (lexer_on [98, ch_slash]) (requested [REGEX_CONTENT])
     = (True, \<lparr>previous_indent_length = 0, delimiter_stack = []\<rparr>,
        \<lparr>input = [ch_slash], position = 1, token_start = 0,
           token_end = 1, result_symbol = REGEX_CONTENT\<rparr>)
   \<and> scan \<lparr>previous_indent_length = 0, delimiter_stack = []\<rparr>
        (lexer_on [98, ch_newline]) (requested [REGEX_CONTENT])
     = (False, \<lparr>previous_indent_length = 0, delimiter_stack = []\<rparr>,
        \<lparr>input = [ch_newline], position = 1, token_start = 0,
           token_end = 0, result_symbol = COMMENT\<rparr>)
   \<and> scan \<lparr>previous_indent_length = 0, delimiter_stack = []\<rparr>
        (lexer_on [98]) (requested [REGEX_CONTENT])
     = (False, \<lparr>previous_indent_length = 0, delimiter_stack = []\<rparr>,
        \<lparr>input = [], position = 1, token_start = 0,
           token_end = 1, result_symbol = COMMENT\<rparr>)
   \<and> scan \<lparr>previous_indent_length = 4, delimiter_stack = []\<rparr>
        (lexer_on [98]) (requested [REGEX_CONTENT, NEWLINE])
     = (True, \<lparr>previous_indent_length = 4, delimiter_stack = []\<rparr>,
        \<lparr>input = [], position = 1, token_start = 0,
           token_end = 1, result_symbol = NEWLINE\<rparr>)"
proof -
  let ?s = "\<lparr>previous_indent_length = 0, delimiter_stack = []\<rparr>"
  let ?s4 = "\<lparr>previous_indent_length = 4, delimiter_stack = []\<rparr>"
  let ?v = "requested [REGEX_CONTENT]"
  let ?vn = "requested [REGEX_CONTENT, NEWLINE]"
  have h: "?v REGEX_CONTENT" "\<not> error_recovery_mode ?v"
    "\<not> (?v STRING_CONTENT \<and> delimiter_stack ?s \<noteq> [])"
    by (simp_all add: requested_def error_recovery_mode_def)
  have hn: "?vn REGEX_CONTENT" "\<not> error_recovery_mode ?vn"
    "\<not> (?vn STRING_CONTENT \<and> delimiter_stack ?s4 \<noteq> [])"
    by (simp_all add: requested_def error_recovery_mode_def)
  have r1: "content_run regex_stop [97]" and r2: "content_run regex_stop [98]"
    and r0: "content_run regex_stop []"
    by (simp_all add: regex_stop_def)
  have v: "\<not> ?v DEDENT" "\<not> ?v NEWLINE" "?vn NEWLINE" "\<not> ?vn DEDENT"
    by (simp_all add: requested_def)
  have i1: "input (lexer_on [97, ch_backslash, ch_slash, 98, ch_slash])
              = [97] @ ch_backslash # [ch_slash, 98, ch_slash]"
    and i2: "input (lexer_on [ch_slash, 98, ch_slash]) = ch_slash # [98, ch_slash]"
    and i3: "input (lexer_on [98, ch_slash]) = [98] @ ch_slash # [] \<and> [98] \<noteq> []"
    and i4: "input (lexer_on [98, ch_newline]) = [98] @ ch_newline # [] \<and> [98] \<noteq> []"
    and i5: "input (lexer_on [98]) = [98]"
    by (simp_all add: lexer_on_def)
  note t1 = regex_content_scanner[OF h r1, THEN conjunct1, rule_format, OF i1]
  note t2 = regex_content_scanner[OF h r0, THEN conjunct2, THEN conjunct2, THEN conjunct1,
      rule_format, OF i2]
  note t3 = regex_content_scanner[OF h r2, THEN conjunct2, THEN conjunct1, rule_format, OF i3]
  note t4 = regex_content_scanner[OF h r2, THEN conjunct2, THEN conjunct2, THEN conjunct2,
      THEN conjunct1, rule_format, OF i4]
  note t5 = regex_content_scanner[OF h r2, THEN conjunct2, THEN conjunct2, THEN conjunct2,
      THEN conjunct2, THEN conjunct1, rule_format, OF i5]
  note t6 = regex_content_scanner[OF hn r2, THEN conjunct2, THEN conjunct2, THEN conjunct2,
      THEN conjunct2, THEN conjunct1, rule_format, OF i5]
  have c1: "scan ?s (lexer_on [97, ch_backslash, ch_slash, 98, ch_slash]) ?v
     = (True, ?s, \<lparr>input = [ch_backslash, ch_slash, 98, ch_slash], position = 1,
          token_start = 0, token_end = 1, result_symbol = REGEX_CONTENT\<rparr>)"
    using t1 by (simp add: lexer_on_def)
  have c2: "scan ?s (lexer_on [ch_slash, 98, ch_slash]) ?v
     = (True, ?s, \<lparr>input = [98, ch_slash], position = 1, token_start = 0,
           token_end = 1, result_symbol = REGEX_END\<rparr>)"
    using t2 by (simp add: lexer_on_def)
  have c3: "scan ?s (lexer_on [98, ch_slash]) ?v
     = (True, ?s, \<lparr>input = [ch_slash], position = 1, token_start = 0,
           token_end = 1, result_symbol = REGEX_CONTENT\<rparr>)"
    using t3 by (simp add: lexer_on_def)
  have c4: "scan ?s (lexer_on [98, ch_newline]) ?v
     = (False, ?s, \<lparr>input = [ch_newline], position = 1, token_start = 0,
           token_end = 0, result_symbol = COMMENT\<rparr>)"
    using t4 by (simp add: lexer_on_def)
  have c5: "scan ?s (lexer_on [98]) ?v
     = (False, ?s, \<lparr>input = [], position = 1, token_start = 0,
           token_end = 1, result_symbol = COMMENT\<rparr>)"
    using t5 v by (simp add: lexer_on_def)
  have c6: "scan ?s4 (lexer_on [98]) ?vn
     = (True, ?s4, \<lparr>input = [], position = 1, token_start = 0,
           token_end = 1, result_symbol = NEWLINE\<rparr>)"
    using t6 v by (simp add: lexer_on_def)
  from c1 c2 c3 c4 c5 c6 show ?thesis by (intro conjI)
qed

subsection \<open>The layout scanner\<close>

lemma skipped_0: "skipped 0 lx = lx"
  by (simp add: skipped_def)

lemma skip_Cons: "input lx = c # cs \<Longrightarrow> skip lx = skipped 1 lx"
  by (simp add: skip_def lexer_advance_def skipped_def)

lemma skip_Nil: "input lx = [] \<Longrightarrow> skip lx = lx"
  by (simp add: skip_def lexer_advance_def)

lemma skipped_skipped: "skipped m (skipped n lx) = skipped (n + m) lx"
  by (simp add: skipped_def add.commute add.left_commute)

lemma input_skipped: "input (skipped n lx) = drop n (input lx)"
  by (simp add: skipped_def)

lemma input_mark_end: "input (mark_end lx) = input lx"
  by (simp add: mark_end_def)

lemma layout_step:
  assumes "input lx = c # cs"
  shows "c = ch_newline \<Longrightarrow> layout_loop f i fc lx = layout_loop True 0 fc (skipped 1 lx)"
    and "c = ch_space \<Longrightarrow> layout_loop f i fc lx = layout_loop f (i + 1) fc (skipped 1 lx)"
    and "c = ch_return \<Longrightarrow> layout_loop f i fc lx = layout_loop f 0 fc (skipped 1 lx)"
    and "c = ch_tab \<Longrightarrow> layout_loop f i fc lx = layout_loop f (i + 8) fc (skipped 1 lx)"
    and "c = ch_formfeed \<Longrightarrow> layout_loop f i fc lx = layout_loop f 0 fc (skipped 1 lx)"
proof -
  note la = lookahead_Cons[OF assms] skip_Cons[OF assms]
  show "c = ch_newline \<Longrightarrow> layout_loop f i fc lx = layout_loop True 0 fc (skipped 1 lx)"
    by (subst layout_loop.simps) (simp add: la)
  show "c = ch_space \<Longrightarrow> layout_loop f i fc lx = layout_loop f (i + 1) fc (skipped 1 lx)"
    by (subst layout_loop.simps) (simp add: la)
  show "c = ch_return \<Longrightarrow> layout_loop f i fc lx = layout_loop f 0 fc (skipped 1 lx)"
    by (subst layout_loop.simps) (simp add: la)
  show "c = ch_tab \<Longrightarrow> layout_loop f i fc lx = layout_loop f (i + 8) fc (skipped 1 lx)"
    by (subst layout_loop.simps) (simp add: la)
  show "c = ch_formfeed \<Longrightarrow> layout_loop f i fc lx = layout_loop f 0 fc (skipped 1 lx)"
    by (subst layout_loop.simps) (simp add: la)
qed

lemma layout_break:
  assumes "input lx = c # cs"
    and "c \<noteq> ch_newline" "c \<noteq> ch_space" "c \<noteq> ch_return" "c \<noteq> ch_tab" "c \<noteq> ch_hash"
      "c \<noteq> ch_backslash" "c \<noteq> ch_formfeed" "c \<noteq> 0"
  shows "layout_loop f i fc lx = Inr (f, i, fc, lx)"
  using assms(2-) by (subst layout_loop.simps) (simp add: lookahead_Cons[OF assms(1)])

lemma layout_break_letter:
  "input l = [120] \<Longrightarrow> layout_loop f i fc l = Inr (f, i, fc, l)"
  by (rule layout_break, assumption) simp_all

lemma space_tab_distinct: "ch_space \<noteq> ch_tab" "ch_tab \<noteq> ch_space"
  by simp_all

lemma layout_indent_run:
  assumes "set ws \<subseteq> {ch_space, ch_tab}" "input lx = ws @ rest"
  shows "layout_loop f i fc lx
           = layout_loop f (i + of_nat (count_list ws ch_space + 8 * count_list ws ch_tab)) fc
               (skipped (length ws) lx)"
  using assms
proof (induction ws arbitrary: lx i)
  case Nil
  show ?case by (simp add: skipped_0)
next
  case (Cons c ws)
  from Cons.prems have inp: "input lx = c # (ws @ rest)" and ws: "set ws \<subseteq> {ch_space, ch_tab}"
    and c: "c = ch_space \<or> c = ch_tab" by auto
  have rest: "input (skipped 1 lx) = ws @ rest" by (simp add: input_skipped inp)
  have len: "skipped (length ws) (skipped 1 lx) = skipped (length (c # ws)) lx"
    by (simp add: skipped_skipped)
  let ?n = "count_list ws ch_space + 8 * count_list ws ch_tab"
  from c show ?case
  proof
    assume sp: "c = ch_space"
    have cnt: "count_list (c # ws) ch_space + 8 * count_list (c # ws) ch_tab = Suc ?n"
      unfolding sp count_list.simps using space_tab_distinct by simp
    have "layout_loop f i fc lx = layout_loop f (i + 1) fc (skipped 1 lx)"
      by (rule layout_step(2)[OF inp sp])
    also have "\<dots> = layout_loop f (i + 1 + of_nat ?n) fc (skipped (length ws) (skipped 1 lx))"
      by (rule Cons.IH[OF ws rest])
    also have "i + 1 + of_nat ?n = i + of_nat (Suc ?n)" by simp
    finally show ?thesis unfolding len cnt .
  next
    assume tb: "c = ch_tab"
    have cnt: "count_list (c # ws) ch_space + 8 * count_list (c # ws) ch_tab = 8 + ?n"
      unfolding tb count_list.simps using space_tab_distinct by simp
    have "layout_loop f i fc lx = layout_loop f (i + 8) fc (skipped 1 lx)"
      by (rule layout_step(4)[OF inp tb])
    also have "\<dots> = layout_loop f (i + 8 + of_nat ?n) fc (skipped (length ws) (skipped 1 lx))"
      by (rule Cons.IH[OF ws rest])
    also have "i + 8 + of_nat ?n = i + of_nat (8 + ?n)" by simp
    finally show ?thesis unfolding len cnt .
  qed
qed

lemma count_list_replicate: "count_list (replicate n x) y = (if x = y then n else 0)"
  by (induction n) auto

lemma layout_spaces:
  assumes "input lx = replicate k ch_space @ rest"
  shows "layout_loop f i fc lx = layout_loop f (i + of_nat k) fc (skipped k lx)"
proof -
  have "set (replicate k ch_space) \<subseteq> {ch_space, ch_tab}" by auto
  from layout_indent_run[OF this assms, of f i fc]
  show ?thesis by (simp add: count_list_replicate)
qed

lemma comment_loop_run:
  assumes "list_all (\<lambda>x. x \<noteq> 0 \<and> x \<noteq> ch_newline) body" "input lx = body @ rest"
    "rest = [] \<or> hd rest = 0 \<or> hd rest = ch_newline"
  shows "comment_loop lx = skipped (length body) lx"
  using assms(1,2)
proof (induction body arbitrary: lx)
  case Nil
  then have "lookahead lx = 0 \<or> lookahead lx = ch_newline"
    using assms(3) by (cases rest) (auto simp: lookahead_def)
  then show ?case by (subst comment_loop.simps) (auto simp: skipped_0)
next
  case (Cons c body)
  from Cons.prems have inp: "input lx = c # (body @ rest)" and c: "c \<noteq> 0" "c \<noteq> ch_newline"
    and b: "list_all (\<lambda>x. x \<noteq> 0 \<and> x \<noteq> ch_newline) body" by simp_all
  have "comment_loop lx = comment_loop (skipped 1 lx)"
    using c by (subst comment_loop.simps) (simp add: lookahead_Cons[OF inp] skip_Cons[OF inp])
  also have "\<dots> = skipped (length body) (skipped 1 lx)"
    using b by (rule Cons.IH) (simp add: input_skipped inp)
  finally show ?case by (simp add: skipped_skipped)
qed

lemma layout_comment:
  assumes "list_all (\<lambda>x. x \<noteq> 0 \<and> x \<noteq> ch_newline) body"
    and "input lx = ch_hash # body @ ch_newline # rest"
  shows "layout_loop f i fc lx
           = layout_loop f 0 (if fc = - 1 then i else fc) (skipped (length body + 2) lx)"
proof -
  have "comment_loop lx = skipped (length (ch_hash # body)) lx"
    using assms by (intro comment_loop_run[where rest = "ch_newline # rest"]) simp_all
  then have cl: "comment_loop lx = skipped (Suc (length body)) lx" by simp
  have "input (skipped (Suc (length body)) lx) = ch_newline # rest"
    using assms(2) by (simp add: input_skipped)
  then have "skip (skipped (Suc (length body)) lx) = skipped 1 (skipped (Suc (length body)) lx)"
    by (rule skip_Cons)
  then have sk: "skip (comment_loop lx) = skipped (length body + 2) lx"
    by (simp add: cl skipped_skipped)
  show ?thesis
    by (subst layout_loop.simps) (simp add: lookahead_Cons[OF assms(2)] sk)
qed

lemma layout_continuation:
  shows "input lx = ch_backslash # ch_newline # rest \<Longrightarrow>
           layout_loop f i fc lx = layout_loop f i fc (skipped 2 lx)"
    and "input lx = ch_backslash # ch_return # ch_newline # rest \<Longrightarrow>
           layout_loop f i fc lx = layout_loop f i fc (skipped 3 lx)"
proof -
  assume inp: "input lx = ch_backslash # ch_newline # rest"
  have s1: "skip lx = skipped (Suc 0) lx" using skip_Cons[OF inp] by simp
  have i1: "input (skipped (Suc 0) lx) = ch_newline # rest" by (simp add: input_skipped inp)
  have s2: "skip (skipped (Suc 0) lx) = skipped 2 lx"
    using skip_Cons[OF i1] by (simp add: skipped_skipped numeral_2_eq_2)
  show "layout_loop f i fc lx = layout_loop f i fc (skipped 2 lx)"
    by (subst layout_loop.simps)
       (simp add: lookahead_Cons[OF inp] s1 lookahead_Cons[OF i1] s2)
next
  assume inp: "input lx = ch_backslash # ch_return # ch_newline # rest"
  have s1: "skip lx = skipped (Suc 0) lx" using skip_Cons[OF inp] by simp
  have i1: "input (skipped (Suc 0) lx) = ch_return # ch_newline # rest"
    by (simp add: input_skipped inp)
  have s2: "skip (skipped (Suc 0) lx) = skipped 2 lx"
    using skip_Cons[OF i1] by (simp add: skipped_skipped numeral_2_eq_2)
  have i2: "input (skipped 2 lx) = ch_newline # rest" by (simp add: input_skipped inp)
  have s3: "skip (skipped 2 lx) = skipped 3 lx"
    using skip_Cons[OF i2] by (simp add: skipped_skipped numeral_3_eq_3)
  show "layout_loop f i fc lx = layout_loop f i fc (skipped 3 lx)"
    by (subst layout_loop.simps)
       (simp add: lookahead_Cons[OF inp] s1 lookahead_Cons[OF i1] s2 lookahead_Cons[OF i2] s3)
qed

lemma layout_bad_continuation:
  assumes "lookahead lx = ch_backslash"
    and "lookahead (if lookahead (skip lx) = ch_return then skip (skip lx) else skip lx)
           \<noteq> ch_newline"
  shows "layout_loop f i fc lx
           = Inl (if lookahead (skip lx) = ch_return then skip (skip lx) else skip lx)"
  using assms by (subst layout_loop.simps) simp

lemma sint_of_nat_small:
  assumes "k < 2 ^ 31"
  shows "sint (of_nat k :: 32 word) = int k"
proof -
  have "int k < 2 ^ 31" using assms by (metis of_nat_less_iff of_nat_numeral of_nat_power)
  moreover have "- (2 ^ 31) \<le> int k" by (rule order_trans[of _ 0]) simp_all
  ultimately have "signed_take_bit 31 (int k) = int k"
    by (rule signed_take_bit_int_eq_self[rotated])
  then show ?thesis by (simp add: signed_of_nat)
qed

lemma unat_baseline_small: "unat (p :: 16 word) < 2 ^ 31"
proof -
  have "unat p < 2 ^ 16" using unsigned_less[of p, where ?'a = nat] by simp
  then show ?thesis by simp
qed

lemma scan_layout_dispatch:
  assumes "scan_string_content s lx v = (None, s, lx1)"
    and "scan_regex_content lx1 v = (None, lx2)"
  shows "scan s lx v = scan_layout s lx2 v"
  using assms by (simp add: scan_def)

lemma scan_layout_decided:
  assumes "layout_loop False 0 (- 1) (mark_end lx2) = Inr (f, il, fc, lx3)"
  shows "scan_layout s lx2 v =
     (case layout_decision s v f il fc lx3 of
        Some (s', lx') \<Rightarrow> (True, s', lx')
      | None \<Rightarrow> literal_openers s v fc lx3)"
  using assms by (simp add: scan_layout_def)

lemma literal_openers_symbol:
  "literal_openers s v fc lx = (True, s', lx') \<Longrightarrow>
     result_symbol lx' = STRING_START \<or> result_symbol lx' = REGEX_START"
  by (auto simp: literal_openers_def Let_def split: if_splits prod.splits)

lemma layout_decision_cases:
  "layout_decision s v True il fc lx3 =
     (if v INDENT \<and> previous_indent_length s = 0 \<and> il \<noteq> 0 then
        Some (s\<lparr>previous_indent_length := ucast il\<rparr>, lx3\<lparr>result_symbol := INDENT\<rparr>)
      else if (v DEDENT \<or> (\<not> v NEWLINE \<and> \<not> within_brackets v))
            \<and> previous_indent_length s \<noteq> 0 \<and> il = 0
            \<and> sint fc < uint (previous_indent_length s) then
        Some (s\<lparr>previous_indent_length := 0\<rparr>, lx3\<lparr>result_symbol := DEDENT\<rparr>)
      else if v NEWLINE \<and> \<not> error_recovery_mode v then
        Some (s, lx3\<lparr>result_symbol := NEWLINE\<rparr>)
      else None)"
  by (auto simp: layout_decision_def sint_ucast_baseline word_gt_0)

lemma scan_committed_kind:
  assumes "scan_string_content s lx v = (None, s, lx1)"
    and "scan_regex_content lx1 v = (None, lx2)"
    and "layout_loop False 0 (- 1) (mark_end lx2) = Inr (True, il, fc, lx3)"
  shows "(fst (scan s lx v) \<and> result_symbol (snd (snd (scan s lx v))) = INDENT)
           \<longleftrightarrow> v INDENT \<and> previous_indent_length s = 0 \<and> il \<noteq> 0"
    and "v INDENT \<and> previous_indent_length s = 0 \<and> il \<noteq> 0 \<Longrightarrow>
           scan s lx v = (True, s\<lparr>previous_indent_length := ucast il\<rparr>,
                          lx3\<lparr>result_symbol := INDENT\<rparr>)"
    and "(fst (scan s lx v) \<and> result_symbol (snd (snd (scan s lx v))) = DEDENT)
           \<longleftrightarrow> (v DEDENT \<or> (\<not> v NEWLINE \<and> \<not> within_brackets v))
               \<and> previous_indent_length s \<noteq> 0 \<and> il = 0
               \<and> sint fc < uint (previous_indent_length s)"
    and "(v DEDENT \<or> (\<not> v NEWLINE \<and> \<not> within_brackets v))
               \<and> previous_indent_length s \<noteq> 0 \<and> il = 0
               \<and> sint fc < uint (previous_indent_length s) \<Longrightarrow>
           scan s lx v = (True, s\<lparr>previous_indent_length := 0\<rparr>,
                          lx3\<lparr>result_symbol := DEDENT\<rparr>)"
proof -
  note sc = scan_layout_dispatch[OF assms(1,2)] scan_layout_decided[OF assms(3)]
    layout_decision_cases
  obtain r s' lx' where lo: "literal_openers s v fc lx3 = (r, s', lx')"
    by (cases "literal_openers s v fc lx3") auto
  have sym: "r \<Longrightarrow> result_symbol lx' \<noteq> INDENT \<and> result_symbol lx' \<noteq> DEDENT"
    using literal_openers_symbol[of s v fc lx3 s' lx'] lo by auto
  show "(fst (scan s lx v) \<and> result_symbol (snd (snd (scan s lx v))) = INDENT)
           \<longleftrightarrow> v INDENT \<and> previous_indent_length s = 0 \<and> il \<noteq> 0"
    using sym by (auto simp: sc lo)
  show "v INDENT \<and> previous_indent_length s = 0 \<and> il \<noteq> 0 \<Longrightarrow>
           scan s lx v = (True, s\<lparr>previous_indent_length := ucast il\<rparr>,
                          lx3\<lparr>result_symbol := INDENT\<rparr>)"
    by (simp add: sc)
  show "(fst (scan s lx v) \<and> result_symbol (snd (snd (scan s lx v))) = DEDENT)
           \<longleftrightarrow> (v DEDENT \<or> (\<not> v NEWLINE \<and> \<not> within_brackets v))
               \<and> previous_indent_length s \<noteq> 0 \<and> il = 0
               \<and> sint fc < uint (previous_indent_length s)"
    using sym by (auto simp: sc lo)
  show "(v DEDENT \<or> (\<not> v NEWLINE \<and> \<not> within_brackets v))
               \<and> previous_indent_length s \<noteq> 0 \<and> il = 0
               \<and> sint fc < uint (previous_indent_length s) \<Longrightarrow>
           scan s lx v = (True, s\<lparr>previous_indent_length := 0\<rparr>,
                          lx3\<lparr>result_symbol := DEDENT\<rparr>)"
    by (auto simp: sc)
qed

lemma layout_comment_line:
  assumes "input lx = ch_newline # replicate k ch_space @ ch_hash # body @ ch_newline # d # rest"
    and "list_all (\<lambda>x. x \<noteq> 0 \<and> x \<noteq> ch_newline) body"
    and "d \<notin> set [ch_newline, ch_space, ch_return, ch_tab, ch_hash, ch_backslash, ch_formfeed, 0]"
  shows "layout_loop False 0 (- 1) lx
           = Inr (True, 0, of_nat k, skipped (k + length body + 3) lx)"
proof -
  have "layout_loop False 0 (- 1) lx = layout_loop True 0 (- 1) (skipped 1 lx)"
    by (rule layout_step(1)[OF assms(1) refl])
  also have "\<dots> = layout_loop True (0 + of_nat k) (- 1) (skipped k (skipped 1 lx))"
    by (rule layout_spaces[where rest = "ch_hash # body @ ch_newline # d # rest"])
       (simp add: input_skipped assms(1))
  also have "\<dots> = layout_loop True (of_nat k) (- 1) (skipped (1 + k) lx)"
    by (simp add: skipped_skipped)
  also have "\<dots> = layout_loop True 0 (if (- 1 :: 32 word) = - 1 then of_nat k else - 1)
                     (skipped (length body + 2) (skipped (1 + k) lx))"
    by (rule layout_comment[OF assms(2), where rest = "d # rest"])
       (simp add: input_skipped assms(1))
  also have "\<dots> = layout_loop True 0 (of_nat k) (skipped (k + length body + 3) lx)"
  proof -
    have "1 + k + (length body + 2) = k + length body + 3" by simp
    then show ?thesis by (simp only: skipped_skipped refl if_True)
  qed
  also have "\<dots> = Inr (True, 0, of_nat k, skipped (k + length body + 3) lx)"
  proof -
    let ?pre = "ch_newline # replicate k ch_space @ ch_hash # body @ [ch_newline]"
    have "input lx = ?pre @ d # rest" "length ?pre = k + length body + 3"
      by (simp_all add: assms(1))
    then have "drop (k + length body + 3) (input lx) = d # rest"
      by (metis append_eq_conv_conj)
    then have inp: "input (skipped (k + length body + 3) lx) = d # rest"
      by (simp only: input_skipped)
    from assms(3) have d: "d \<noteq> ch_newline" "d \<noteq> ch_space" "d \<noteq> ch_return" "d \<noteq> ch_tab"
      "d \<noteq> ch_hash" "d \<noteq> ch_backslash" "d \<noteq> ch_formfeed" "d \<noteq> 0"
      by simp_all
    show ?thesis by (rule layout_break[OF inp d])
  qed
  finally show ?thesis .
qed

lemma dedent_decision_flag:
  assumes "scan_string_content s lx valid_symbols = (None, s, lx1)"
    and "scan_regex_content lx1 valid_symbols = (None, lx2)"
  shows "(layout_loop False 0 (- 1) (mark_end lx2)
            = Inr (True, indent_length, first_comment_indent_length, lx3) \<longrightarrow>
          ((fst (scan s lx valid_symbols)
              \<and> result_symbol (snd (snd (scan s lx valid_symbols))) = DEDENT)
            \<longleftrightarrow> (valid_symbols DEDENT
                  \<or> (\<not> valid_symbols NEWLINE \<and> \<not> within_brackets valid_symbols))
                \<and> previous_indent_length s \<noteq> 0
                \<and> indent_length = 0
                \<and> (first_comment_indent_length = - 1
                     \<or> sint first_comment_indent_length < uint (previous_indent_length s)))
          \<and> (fst (scan s lx valid_symbols)
                \<and> result_symbol (snd (snd (scan s lx valid_symbols))) = DEDENT \<longrightarrow>
              scan s lx valid_symbols
                = (True, s\<lparr>previous_indent_length := 0\<rparr>, lx3\<lparr>result_symbol := DEDENT\<rparr>)))
       \<and> (input lx2 = ch_newline # replicate k ch_space @ ch_hash # body @ ch_newline # d # rest
            \<and> list_all (\<lambda>x. x \<noteq> 0 \<and> x \<noteq> ch_newline) body
            \<and> d \<notin> set [ch_newline, ch_space, ch_return, ch_tab, ch_hash, ch_backslash,
                          ch_formfeed, 0]
            \<and> (valid_symbols DEDENT
                  \<or> (\<not> valid_symbols NEWLINE \<and> \<not> within_brackets valid_symbols))
            \<and> previous_indent_length s \<noteq> 0 \<longrightarrow>
          (k = unat (previous_indent_length s) \<longrightarrow>
             \<not> (fst (scan s lx valid_symbols)
                  \<and> result_symbol (snd (snd (scan s lx valid_symbols))) = DEDENT))
          \<and> (k < unat (previous_indent_length s) \<longrightarrow>
             scan s lx valid_symbols
               = (True, s\<lparr>previous_indent_length := 0\<rparr>,
                  (skipped (k + length body + 3) (mark_end lx2))\<lparr>result_symbol := DEDENT\<rparr>)))"
proof (intro conjI impI)
  assume la: "layout_loop False 0 (- 1) (mark_end lx2)
            = Inr (True, indent_length, first_comment_indent_length, lx3)"
  have m1: "first_comment_indent_length = - 1 \<Longrightarrow>
      sint first_comment_indent_length < uint (previous_indent_length s)"
  proof -
    assume "first_comment_indent_length = - 1"
    moreover have "(- 1 :: int) < uint (previous_indent_length s)"
      by (rule less_le_trans[of _ 0]) simp_all
    ultimately show ?thesis by simp
  qed
  from scan_committed_kind(3)[OF assms la] m1
  show "(fst (scan s lx valid_symbols)
              \<and> result_symbol (snd (snd (scan s lx valid_symbols))) = DEDENT)
            \<longleftrightarrow> (valid_symbols DEDENT
                  \<or> (\<not> valid_symbols NEWLINE \<and> \<not> within_brackets valid_symbols))
                \<and> previous_indent_length s \<noteq> 0
                \<and> indent_length = 0
                \<and> (first_comment_indent_length = - 1
                     \<or> sint first_comment_indent_length < uint (previous_indent_length s))"
    by blast
  assume "fst (scan s lx valid_symbols)
                \<and> result_symbol (snd (snd (scan s lx valid_symbols))) = DEDENT"
  with scan_committed_kind(3)[OF assms la]
  have "(valid_symbols DEDENT \<or> (\<not> valid_symbols NEWLINE \<and> \<not> within_brackets valid_symbols))
               \<and> previous_indent_length s \<noteq> 0 \<and> indent_length = 0
               \<and> sint first_comment_indent_length < uint (previous_indent_length s)"
    by blast
  then show "scan s lx valid_symbols
                = (True, s\<lparr>previous_indent_length := 0\<rparr>, lx3\<lparr>result_symbol := DEDENT\<rparr>)"
    by (rule scan_committed_kind(4)[OF assms la])
next
  assume h: "input lx2 = ch_newline # replicate k ch_space @ ch_hash # body @ ch_newline # d # rest
            \<and> list_all (\<lambda>x. x \<noteq> 0 \<and> x \<noteq> ch_newline) body
            \<and> d \<notin> set [ch_newline, ch_space, ch_return, ch_tab, ch_hash, ch_backslash,
                          ch_formfeed, 0]
            \<and> (valid_symbols DEDENT
                  \<or> (\<not> valid_symbols NEWLINE \<and> \<not> within_brackets valid_symbols))
            \<and> previous_indent_length s \<noteq> 0"
  note h1 = h[THEN conjunct1]
  note h2 = h[THEN conjunct2, THEN conjunct1]
  note h3 = h[THEN conjunct2, THEN conjunct2, THEN conjunct1]
  note h4 = h[THEN conjunct2, THEN conjunct2, THEN conjunct2, THEN conjunct1]
  note h5 = h[THEN conjunct2, THEN conjunct2, THEN conjunct2, THEN conjunct2]
  have inp: "input (mark_end lx2)
        = ch_newline # replicate k ch_space @ ch_hash # body @ ch_newline # d # rest"
    using h1 by (simp only: input_mark_end)
  have la: "layout_loop False 0 (- 1) (mark_end lx2)
      = Inr (True, 0, of_nat k, skipped (k + length body + 3) (mark_end lx2))"
    by (rule layout_comment_line[OF inp h2 h3])
  note kind = scan_committed_kind(3,4)[OF assms la]
  {
    assume k: "k = unat (previous_indent_length s)"
    have "sint (of_nat k :: 32 word) = int (unat (previous_indent_length s))"
      unfolding k by (rule sint_of_nat_small[OF unat_baseline_small])
    also have "\<dots> = uint (previous_indent_length s)" by (rule uint_nat[symmetric])
    finally have "sint (of_nat k :: 32 word) = uint (previous_indent_length s)" .
    with kind(1)
    show "\<not> (fst (scan s lx valid_symbols)
                  \<and> result_symbol (snd (snd (scan s lx valid_symbols))) = DEDENT)"
      by simp
  }
  {
    assume k: "k < unat (previous_indent_length s)"
    with unat_baseline_small[of "previous_indent_length s"] have "k < 2 ^ 31" by simp
    from sint_of_nat_small[OF this] k
    have "sint (of_nat k :: 32 word) < int (unat (previous_indent_length s))"
      by linarith
    then have "sint (of_nat k :: 32 word) < uint (previous_indent_length s)"
      by (simp only: uint_nat)
    with h4 h5 show "scan s lx valid_symbols
               = (True, s\<lparr>previous_indent_length := 0\<rparr>,
                  (skipped (k + length body + 3) (mark_end lx2))\<lparr>result_symbol := DEDENT\<rparr>)"
      by (intro kind(2)) simp
  }
qed


lemma of_nat_column_present:
  assumes "k \<le> unat (p :: 16 word)"
  shows "(of_nat k :: 32 word) \<noteq> - 1"
proof
  assume eq: "(of_nat k :: 32 word) = - 1"
  from assms unat_baseline_small[of p] have "k < 2 ^ 31" by simp
  from sint_of_nat_small[OF this] have "sint (of_nat k :: 32 word) = int k" .
  with eq have "int k = - 1" by simp
  then show False by simp
qed

lemma layout_two_comment_lines:
  assumes "input lx = ch_newline # replicate k ch_space @ ch_hash # body @ ch_newline
                        # replicate k2 ch_space @ ch_hash # body2 @ ch_newline # d # rest"
    and "list_all (\<lambda>x. x \<noteq> 0 \<and> x \<noteq> ch_newline) body"
    and "list_all (\<lambda>x. x \<noteq> 0 \<and> x \<noteq> ch_newline) body2"
    and "d \<notin> set [ch_newline, ch_space, ch_return, ch_tab, ch_hash, ch_backslash, ch_formfeed, 0]"
    and "(of_nat k :: 32 word) \<noteq> - 1"
  shows "layout_loop False 0 (- 1) lx
           = Inr (True, 0, of_nat k, skipped (k + length body + k2 + length body2 + 5) lx)"
proof -
  let ?tail = "replicate k2 ch_space @ ch_hash # body2 @ ch_newline # d # rest"
  let ?pre1 = "ch_newline # replicate k ch_space @ ch_hash # body @ [ch_newline]"
  let ?n1 = "k + length body + 3"
  let ?lx1 = "skipped ?n1 lx"
  have "layout_loop False 0 (- 1) lx = layout_loop True 0 (- 1) (skipped 1 lx)"
    by (rule layout_step(1)[OF assms(1) refl])
  also have "\<dots> = layout_loop True (0 + of_nat k) (- 1) (skipped k (skipped 1 lx))"
    by (rule layout_spaces[where rest = "ch_hash # body @ ch_newline # ?tail"])
       (simp add: input_skipped assms(1))
  also have "\<dots> = layout_loop True (of_nat k) (- 1) (skipped (1 + k) lx)"
    by (simp add: skipped_skipped)
  also have "\<dots> = layout_loop True 0 (if (- 1 :: 32 word) = - 1 then of_nat k else - 1)
                     (skipped (length body + 2) (skipped (1 + k) lx))"
    by (rule layout_comment[OF assms(2), where rest = ?tail])
       (simp add: input_skipped assms(1))
  also have "\<dots> = layout_loop True 0 (of_nat k) ?lx1"
  proof -
    have "1 + k + (length body + 2) = k + length body + 3" by simp
    then show ?thesis by (simp only: skipped_skipped refl if_True)
  qed
  finally have first: "layout_loop False 0 (- 1) lx = layout_loop True 0 (of_nat k) ?lx1" .
  have "input lx = ?pre1 @ ?tail" "length ?pre1 = ?n1"
    by (simp_all add: assms(1))
  then have "drop ?n1 (input lx) = ?tail" by (metis append_eq_conv_conj)
  then have inp1: "input ?lx1 = ?tail" by (simp only: input_skipped)
  have "layout_loop True 0 (of_nat k) ?lx1
          = layout_loop True (0 + of_nat k2) (of_nat k) (skipped k2 ?lx1)"
    by (rule layout_spaces[OF inp1])
  also have "\<dots> = layout_loop True 0 (if (of_nat k :: 32 word) = - 1 then 0 + of_nat k2 else of_nat k)
                     (skipped (length body2 + 2) (skipped k2 ?lx1))"
  proof -
    have "input (skipped k2 ?lx1) = drop k2 (input ?lx1)" by (rule input_skipped)
    also have "\<dots> = drop k2 ?tail" by (simp only: inp1)
    also have "\<dots> = ch_hash # body2 @ ch_newline # d # rest" by simp
    finally have inp2: "input (skipped k2 ?lx1) = ch_hash # body2 @ ch_newline # d # rest" .
    show ?thesis by (rule layout_comment[OF assms(3) inp2])
  qed
  also have "\<dots> = layout_loop True 0 (of_nat k) (skipped (k + length body + k2 + length body2 + 5) lx)"
  proof -
    have "k + length body + 3 + k2 + (length body2 + 2) = k + length body + k2 + length body2 + 5"
      by simp
    then show ?thesis using assms(5) by (simp only: skipped_skipped refl if_False)
  qed
  also have "\<dots> = Inr (True, 0, of_nat k, skipped (k + length body + k2 + length body2 + 5) lx)"
  proof -
    let ?pre2 = "?pre1 @ replicate k2 ch_space @ ch_hash # body2 @ [ch_newline]"
    have "input lx = ?pre2 @ d # rest" "length ?pre2 = k + length body + k2 + length body2 + 5"
      by (simp_all add: assms(1))
    then have "drop (k + length body + k2 + length body2 + 5) (input lx) = d # rest"
      by (metis append_eq_conv_conj)
    then have inp: "input (skipped (k + length body + k2 + length body2 + 5) lx) = d # rest"
      by (simp only: input_skipped)
    from assms(4) have d: "d \<noteq> ch_newline" "d \<noteq> ch_space" "d \<noteq> ch_return" "d \<noteq> ch_tab"
      "d \<noteq> ch_hash" "d \<noteq> ch_backslash" "d \<noteq> ch_formfeed" "d \<noteq> 0"
      by simp_all
    show ?thesis by (rule layout_break[OF inp d])
  qed
  finally show ?thesis using first by simp
qed

lemma dedent_after_first_comment:
  assumes "scan_string_content s lx v = (None, s, lx1)"
    and "scan_regex_content lx1 v = (None, lx2)"
    and "layout_loop False 0 (- 1) (mark_end lx2) = Inr (True, 0, of_nat k, lx3)"
    and "v DEDENT \<or> (\<not> v NEWLINE \<and> \<not> within_brackets v)"
    and "previous_indent_length s \<noteq> 0"
  shows "k = unat (previous_indent_length s) \<Longrightarrow>
           \<not> (fst (scan s lx v) \<and> result_symbol (snd (snd (scan s lx v))) = DEDENT)"
    and "k < unat (previous_indent_length s) \<Longrightarrow>
           scan s lx v = (True, s\<lparr>previous_indent_length := 0\<rparr>, lx3\<lparr>result_symbol := DEDENT\<rparr>)"
proof -
  note kind = scan_committed_kind(3,4)[OF assms(1-3)]
  {
    assume k: "k = unat (previous_indent_length s)"
    have "sint (of_nat k :: 32 word) = int (unat (previous_indent_length s))"
      unfolding k by (rule sint_of_nat_small[OF unat_baseline_small])
    also have "\<dots> = uint (previous_indent_length s)" by (rule uint_nat[symmetric])
    finally have "sint (of_nat k :: 32 word) = uint (previous_indent_length s)" .
    with kind(1)
    show "\<not> (fst (scan s lx v) \<and> result_symbol (snd (snd (scan s lx v))) = DEDENT)"
      by simp
  }
  {
    assume k: "k < unat (previous_indent_length s)"
    with unat_baseline_small[of "previous_indent_length s"] have "k < 2 ^ 31" by simp
    from sint_of_nat_small[OF this] k
    have "sint (of_nat k :: 32 word) < int (unat (previous_indent_length s))"
      by linarith
    then have "sint (of_nat k :: 32 word) < uint (previous_indent_length s)"
      by (simp only: uint_nat)
    with assms(4,5)
    show "scan s lx v = (True, s\<lparr>previous_indent_length := 0\<rparr>, lx3\<lparr>result_symbol := DEDENT\<rparr>)"
      by (intro kind(2)) simp
  }
qed

text \<open>
  C5, as stated, fails: Phase A can cross a line boundary and still leave
  \<open>found_end_of_line\<close> unset, because the newline that ends a comment is skipped
  without setting the flag. With the baseline 4 and DEDENT requested, on two spaces, a
  comment, a newline and a letter, the layout loop crosses the newline and ends with the
  flag unset, indentation 0 and the first comment at column 2; every condition of the
  claim holds, and scan returns false.
\<close>

theorem dedent_comment_newline_counterexample:
  "layout_loop False 0 (- 1)
     (mark_end (lexer_on [ch_space, ch_space, ch_hash, 99, ch_newline, 120]))
     = Inr (False, 0, 2,
            \<lparr>input = [120], position = 5, token_start = 5, token_end = 0,
               result_symbol = COMMENT\<rparr>)
   \<and> scan \<lparr>previous_indent_length = 4, delimiter_stack = []\<rparr>
        (lexer_on [ch_space, ch_space, ch_hash, 99, ch_newline, 120]) (requested [DEDENT])
     = (False, \<lparr>previous_indent_length = 4, delimiter_stack = []\<rparr>,
        \<lparr>input = [120], position = 5, token_start = 5, token_end = 0,
           result_symbol = COMMENT\<rparr>)"
  by (simp add: scan_eval)

text \<open>
  C5, amended: the condition is the flag \<open>found_end_of_line\<close> with which Phase A
  ends. The main loop sets it when it skips a newline and when it meets the zero
  lookahead of the end of the input; the newline that ends a comment is skipped with the
  flag as it was, and the comment column is recorded only while none was recorded, so it
  is the column of the first comment. When neither content scanner returns and the
  layout loop ends with the flag set, scan commits DEDENT (returns true with DEDENT as
  the kind) exactly when DEDENT is requested, or NEWLINE is not and no bracket-close kind
  is; and the baseline is not 0; and the measured indentation is 0; and the first comment
  of the run is absent (-1) or began at a column below the baseline. Committing it sets
  the baseline to 0. In particular, on an input that is a newline, \<open>k\<close> spaces, a
  comment line and then a statement at column 0, with the DEDENT condition on the
  requested kinds met and a nonzero baseline: \<open>k\<close> equal to the baseline blocks the
  DEDENT on that call, and \<open>k\<close> below the baseline lets scan commit it; and the same
  holds when a second comment line at any column follows the first.
\<close>

theorem dedent_decision:
  assumes "scan_string_content s lx valid_symbols = (None, s, lx1)"
    and "scan_regex_content lx1 valid_symbols = (None, lx2)"
  shows "(layout_loop False 0 (- 1) (mark_end lx2)
            = Inr (True, indent_length, first_comment_indent_length, lx3) \<longrightarrow>
          ((fst (scan s lx valid_symbols)
              \<and> result_symbol (snd (snd (scan s lx valid_symbols))) = DEDENT)
            \<longleftrightarrow> (valid_symbols DEDENT
                  \<or> (\<not> valid_symbols NEWLINE \<and> \<not> within_brackets valid_symbols))
                \<and> previous_indent_length s \<noteq> 0
                \<and> indent_length = 0
                \<and> (first_comment_indent_length = - 1
                     \<or> sint first_comment_indent_length < uint (previous_indent_length s)))
          \<and> (fst (scan s lx valid_symbols)
                \<and> result_symbol (snd (snd (scan s lx valid_symbols))) = DEDENT \<longrightarrow>
              scan s lx valid_symbols
                = (True, s\<lparr>previous_indent_length := 0\<rparr>, lx3\<lparr>result_symbol := DEDENT\<rparr>)))
       \<and> (input lx2 = ch_newline # replicate k ch_space @ ch_hash # body @ ch_newline # d # rest
            \<and> list_all (\<lambda>x. x \<noteq> 0 \<and> x \<noteq> ch_newline) body
            \<and> d \<notin> set [ch_newline, ch_space, ch_return, ch_tab, ch_hash, ch_backslash,
                          ch_formfeed, 0]
            \<and> (valid_symbols DEDENT
                  \<or> (\<not> valid_symbols NEWLINE \<and> \<not> within_brackets valid_symbols))
            \<and> previous_indent_length s \<noteq> 0 \<longrightarrow>
          (k = unat (previous_indent_length s) \<longrightarrow>
             \<not> (fst (scan s lx valid_symbols)
                  \<and> result_symbol (snd (snd (scan s lx valid_symbols))) = DEDENT))
          \<and> (k < unat (previous_indent_length s) \<longrightarrow>
             scan s lx valid_symbols
               = (True, s\<lparr>previous_indent_length := 0\<rparr>,
                  (skipped (k + length body + 3) (mark_end lx2))\<lparr>result_symbol := DEDENT\<rparr>)))
       \<and> (lookahead lxa = ch_newline \<longrightarrow>
            layout_loop f i fc lxa = layout_loop True 0 fc (skip lxa))
       \<and> (lookahead lxa = 0 \<longrightarrow> layout_loop f i fc lxa = Inr (True, 0, fc, lxa))
       \<and> (list_all (\<lambda>x. x \<noteq> 0 \<and> x \<noteq> ch_newline) cbody
            \<and> input lxa = ch_hash # cbody @ ch_newline # crest \<longrightarrow>
            layout_loop f i fc lxa
              = layout_loop f 0 (if fc = - 1 then i else fc) (skipped (length cbody + 2) lxa))
       \<and> (input lx2 = ch_newline # replicate k ch_space @ ch_hash # body @ ch_newline
                          # replicate k2 ch_space @ ch_hash # body2 @ ch_newline # d # rest
            \<and> list_all (\<lambda>x. x \<noteq> 0 \<and> x \<noteq> ch_newline) body
            \<and> list_all (\<lambda>x. x \<noteq> 0 \<and> x \<noteq> ch_newline) body2
            \<and> d \<notin> set [ch_newline, ch_space, ch_return, ch_tab, ch_hash, ch_backslash,
                          ch_formfeed, 0]
            \<and> (valid_symbols DEDENT
                  \<or> (\<not> valid_symbols NEWLINE \<and> \<not> within_brackets valid_symbols))
            \<and> previous_indent_length s \<noteq> 0 \<longrightarrow>
          (k = unat (previous_indent_length s) \<longrightarrow>
             \<not> (fst (scan s lx valid_symbols)
                  \<and> result_symbol (snd (snd (scan s lx valid_symbols))) = DEDENT))
          \<and> (k < unat (previous_indent_length s) \<longrightarrow>
             scan s lx valid_symbols
               = (True, s\<lparr>previous_indent_length := 0\<rparr>,
                  (skipped (k + length body + k2 + length body2 + 5) (mark_end lx2))
                    \<lparr>result_symbol := DEDENT\<rparr>)))"
proof -
  note old = dedent_decision_flag[OF assms]
  have nl: "lookahead lxa = ch_newline \<longrightarrow>
            layout_loop f i fc lxa = layout_loop True 0 fc (skip lxa)"
    by (subst layout_loop.simps) simp
  have z: "lookahead lxa = 0 \<longrightarrow> layout_loop f i fc lxa = Inr (True, 0, fc, lxa)"
    by (simp add: layout_loop_zero)
  have cm: "list_all (\<lambda>x. x \<noteq> 0 \<and> x \<noteq> ch_newline) cbody
            \<and> input lxa = ch_hash # cbody @ ch_newline # crest \<longrightarrow>
            layout_loop f i fc lxa
              = layout_loop f 0 (if fc = - 1 then i else fc) (skipped (length cbody + 2) lxa)"
  proof
    assume h: "list_all (\<lambda>x. x \<noteq> 0 \<and> x \<noteq> ch_newline) cbody
            \<and> input lxa = ch_hash # cbody @ ch_newline # crest"
    show "layout_loop f i fc lxa
              = layout_loop f 0 (if fc = - 1 then i else fc) (skipped (length cbody + 2) lxa)"
      by (rule layout_comment[OF h[THEN conjunct1] h[THEN conjunct2]])
  qed
  have two: "input lx2 = ch_newline # replicate k ch_space @ ch_hash # body @ ch_newline
                          # replicate k2 ch_space @ ch_hash # body2 @ ch_newline # d # rest
            \<and> list_all (\<lambda>x. x \<noteq> 0 \<and> x \<noteq> ch_newline) body
            \<and> list_all (\<lambda>x. x \<noteq> 0 \<and> x \<noteq> ch_newline) body2
            \<and> d \<notin> set [ch_newline, ch_space, ch_return, ch_tab, ch_hash, ch_backslash,
                          ch_formfeed, 0]
            \<and> (valid_symbols DEDENT
                  \<or> (\<not> valid_symbols NEWLINE \<and> \<not> within_brackets valid_symbols))
            \<and> previous_indent_length s \<noteq> 0 \<longrightarrow>
          (k = unat (previous_indent_length s) \<longrightarrow>
             \<not> (fst (scan s lx valid_symbols)
                  \<and> result_symbol (snd (snd (scan s lx valid_symbols))) = DEDENT))
          \<and> (k < unat (previous_indent_length s) \<longrightarrow>
             scan s lx valid_symbols
               = (True, s\<lparr>previous_indent_length := 0\<rparr>,
                  (skipped (k + length body + k2 + length body2 + 5) (mark_end lx2))
                    \<lparr>result_symbol := DEDENT\<rparr>))"
  proof (intro impI conjI)
    assume h: "input lx2 = ch_newline # replicate k ch_space @ ch_hash # body @ ch_newline
                          # replicate k2 ch_space @ ch_hash # body2 @ ch_newline # d # rest
            \<and> list_all (\<lambda>x. x \<noteq> 0 \<and> x \<noteq> ch_newline) body
            \<and> list_all (\<lambda>x. x \<noteq> 0 \<and> x \<noteq> ch_newline) body2
            \<and> d \<notin> set [ch_newline, ch_space, ch_return, ch_tab, ch_hash, ch_backslash,
                          ch_formfeed, 0]
            \<and> (valid_symbols DEDENT
                  \<or> (\<not> valid_symbols NEWLINE \<and> \<not> within_brackets valid_symbols))
            \<and> previous_indent_length s \<noteq> 0"
    note h1 = h[THEN conjunct1]
    note h2 = h[THEN conjunct2, THEN conjunct1]
    note h3 = h[THEN conjunct2, THEN conjunct2, THEN conjunct1]
    note h4 = h[THEN conjunct2, THEN conjunct2, THEN conjunct2, THEN conjunct1]
    note h5 = h[THEN conjunct2, THEN conjunct2, THEN conjunct2, THEN conjunct2, THEN conjunct1]
    note h6 = h[THEN conjunct2, THEN conjunct2, THEN conjunct2, THEN conjunct2, THEN conjunct2]
    have inp: "input (mark_end lx2) = ch_newline # replicate k ch_space @ ch_hash # body @ ch_newline
                          # replicate k2 ch_space @ ch_hash # body2 @ ch_newline # d # rest"
      using h1 by (simp only: input_mark_end)
    {
      assume k: "k = unat (previous_indent_length s)"
      then have "k \<le> unat (previous_indent_length s)" by simp
      note la = layout_two_comment_lines[OF inp h2 h3 h4 of_nat_column_present[OF this]]
      from dedent_after_first_comment(1)[OF assms la h5 h6 k]
      show "\<not> (fst (scan s lx valid_symbols)
                  \<and> result_symbol (snd (snd (scan s lx valid_symbols))) = DEDENT)" .
    }
    {
      assume k: "k < unat (previous_indent_length s)"
      then have "k \<le> unat (previous_indent_length s)" by simp
      note la = layout_two_comment_lines[OF inp h2 h3 h4 of_nat_column_present[OF this]]
      from dedent_after_first_comment(2)[OF assms la h5 h6 k]
      show "scan s lx valid_symbols
               = (True, s\<lparr>previous_indent_length := 0\<rparr>,
                  (skipped (k + length body + k2 + length body2 + 5) (mark_end lx2))
                    \<lparr>result_symbol := DEDENT\<rparr>)" .
    }
  qed
  from old[THEN conjunct1] old[THEN conjunct2] nl z cm two show ?thesis
    by (intro conjI)
qed

theorem dedent_decision_witness:
  "scan \<lparr>previous_indent_length = 4, delimiter_stack = []\<rparr>
        (lexer_on [ch_newline, 120]) (requested [DEDENT])
     = (True, \<lparr>previous_indent_length = 0, delimiter_stack = []\<rparr>,
        \<lparr>input = [120], position = 1, token_start = 1, token_end = 0,
           result_symbol = DEDENT\<rparr>)
   \<and> \<not> (fst (scan \<lparr>previous_indent_length = 4, delimiter_stack = []\<rparr>
               (lexer_on [ch_newline, ch_space, ch_space, ch_space, ch_space, ch_hash, 99,
                          ch_newline, 120])
               (requested [DEDENT]))
         \<and> result_symbol (snd (snd (scan \<lparr>previous_indent_length = 4, delimiter_stack = []\<rparr>
               (lexer_on [ch_newline, ch_space, ch_space, ch_space, ch_space, ch_hash, 99,
                          ch_newline, 120])
               (requested [DEDENT])))) = DEDENT)
   \<and> scan \<lparr>previous_indent_length = 4, delimiter_stack = []\<rparr>
        (lexer_on [ch_newline, ch_space, ch_space, ch_hash, 99, ch_newline, 120])
        (requested [DEDENT])
     = (True, \<lparr>previous_indent_length = 0, delimiter_stack = []\<rparr>,
        \<lparr>input = [120], position = 6, token_start = 6, token_end = 0,
           result_symbol = DEDENT\<rparr>)
   \<and> layout_loop False 5 (- 1) (lexer_on [ch_newline, 120])
     = Inr (True, 0, - 1,
            \<lparr>input = [120], position = 1, token_start = 1, token_end = 0,
               result_symbol = COMMENT\<rparr>)
   \<and> layout_loop False 5 (- 1) (lexer_on [])
     = Inr (True, 0, - 1,
            \<lparr>input = [], position = 0, token_start = 0, token_end = 0,
               result_symbol = COMMENT\<rparr>)
   \<and> layout_loop False 3 (- 1) (lexer_on [ch_hash, 99, ch_newline, 120])
     = Inr (False, 0, 3,
            \<lparr>input = [120], position = 3, token_start = 3, token_end = 0,
               result_symbol = COMMENT\<rparr>)
   \<and> \<not> (fst (scan \<lparr>previous_indent_length = 4, delimiter_stack = []\<rparr>
               (lexer_on [ch_newline, ch_space, ch_space, ch_space, ch_space, ch_hash, 99,
                          ch_newline, ch_hash, 100, ch_newline, 120])
               (requested [DEDENT]))
         \<and> result_symbol (snd (snd (scan \<lparr>previous_indent_length = 4, delimiter_stack = []\<rparr>
               (lexer_on [ch_newline, ch_space, ch_space, ch_space, ch_space, ch_hash, 99,
                          ch_newline, ch_hash, 100, ch_newline, 120])
               (requested [DEDENT])))) = DEDENT)
   \<and> scan \<lparr>previous_indent_length = 4, delimiter_stack = []\<rparr>
        (lexer_on [ch_newline, ch_space, ch_space, ch_hash, 99, ch_newline,
                   ch_space, ch_space, ch_space, ch_space, ch_hash, 100, ch_newline, 120])
        (requested [DEDENT])
     = (True, \<lparr>previous_indent_length = 0, delimiter_stack = []\<rparr>,
        \<lparr>input = [120], position = 13, token_start = 13, token_end = 0,
           result_symbol = DEDENT\<rparr>)"
proof -
  let ?s = "\<lparr>previous_indent_length = 4, delimiter_stack = []\<rparr>"
  let ?v = "requested [DEDENT]"
  let ?a = "lexer_on [ch_newline, 120]"
  let ?b = "lexer_on [ch_newline, ch_space, ch_space, ch_space, ch_space, ch_hash, 99,
                      ch_newline, 120]"
  let ?c = "lexer_on [ch_newline, ch_space, ch_space, ch_hash, 99, ch_newline, 120]"
  have h1: "scan_string_content ?s lx ?v = (None, ?s, lx)" for lx
    by (simp add: scan_string_content_def)
  have h2: "scan_regex_content lx ?v = (None, lx)" for lx
    by (simp add: scan_regex_content_def requested_def)
  have v: "?v DEDENT \<or> (\<not> ?v NEWLINE \<and> \<not> within_brackets ?v)"
    by (simp add: requested_def)
  have la: "layout_loop False 0 (- 1) (mark_end ?a)
     = Inr (True, 0, - 1, \<lparr>input = [120], position = 1, token_start = 1, token_end = 0,
           result_symbol = COMMENT\<rparr>)"
    by (simp add: scan_eval)
  note a = dedent_decision[OF h1 h2, THEN conjunct1, rule_format, OF la]
  from a[THEN conjunct1] v
  have "fst (scan ?s ?a ?v) \<and> result_symbol (snd (snd (scan ?s ?a ?v))) = DEDENT"
    by simp
  from a[THEN conjunct2, rule_format, OF this]
  have c1: "scan ?s ?a ?v
     = (True, \<lparr>previous_indent_length = 0, delimiter_stack = []\<rparr>,
        \<lparr>input = [120], position = 1, token_start = 1, token_end = 0,
           result_symbol = DEDENT\<rparr>)"
    by simp
  have r4: "replicate 4 ch_space = [ch_space, ch_space, ch_space, ch_space]"
    and r2: "replicate 2 ch_space = [ch_space, ch_space]"
    by (simp_all add: numeral_eq_Suc)
  have ib: "input ?b = ch_newline # replicate 4 ch_space @ ch_hash # [99] @ ch_newline # 120 # []
            \<and> list_all (\<lambda>x. x \<noteq> 0 \<and> x \<noteq> ch_newline) [99]
            \<and> 120 \<notin> set [ch_newline, ch_space, ch_return, ch_tab, ch_hash, ch_backslash,
                          ch_formfeed, 0]
            \<and> (?v DEDENT \<or> (\<not> ?v NEWLINE \<and> \<not> within_brackets ?v))
            \<and> previous_indent_length ?s \<noteq> 0"
    using v by (simp add: lexer_on_def r4 r2)
  have ic: "input ?c = ch_newline # replicate 2 ch_space @ ch_hash # [99] @ ch_newline # 120 # []
            \<and> list_all (\<lambda>x. x \<noteq> 0 \<and> x \<noteq> ch_newline) [99]
            \<and> 120 \<notin> set [ch_newline, ch_space, ch_return, ch_tab, ch_hash, ch_backslash,
                          ch_formfeed, 0]
            \<and> (?v DEDENT \<or> (\<not> ?v NEWLINE \<and> \<not> within_brackets ?v))
            \<and> previous_indent_length ?s \<noteq> 0"
    using v by (simp add: lexer_on_def r4 r2)
  have k4: "4 = unat (previous_indent_length ?s)" and k2: "2 < unat (previous_indent_length ?s)"
    by simp_all
  note c2 = dedent_decision[OF h1 h2, THEN conjunct2, THEN conjunct1, rule_format, OF ib,
      THEN conjunct1, rule_format, OF k4]
  from dedent_decision[OF h1 h2, THEN conjunct2, THEN conjunct1, rule_format, OF ic,
      THEN conjunct2, rule_format, OF k2]
  have c3: "scan ?s ?c ?v
     = (True, \<lparr>previous_indent_length = 0, delimiter_stack = []\<rparr>,
        \<lparr>input = [120], position = 6, token_start = 6, token_end = 0,
           result_symbol = DEDENT\<rparr>)"
    by (simp add: skipped_def mark_end_def lexer_on_def)
  note t = dedent_decision[OF h1 h2]
  have n: "lookahead (lexer_on [ch_newline, 120]) = ch_newline"
    and z: "lookahead (lexer_on []) = 0"
    by (simp_all add: lookahead_def lexer_on_def)
  from t[THEN conjunct2, THEN conjunct2, THEN conjunct1, rule_format, OF n, of False 5 "- 1"]
  have c4: "layout_loop False 5 (- 1) (lexer_on [ch_newline, 120])
     = Inr (True, 0, - 1,
            \<lparr>input = [120], position = 1, token_start = 1, token_end = 0,
               result_symbol = COMMENT\<rparr>)"
    by (simp add: skip_def lexer_advance_def lexer_on_def layout_break_letter)
  from t[THEN conjunct2, THEN conjunct2, THEN conjunct2, THEN conjunct1, rule_format, OF z,
      of False 5 "- 1"]
  have c5: "layout_loop False 5 (- 1) (lexer_on [])
     = Inr (True, 0, - 1,
            \<lparr>input = [], position = 0, token_start = 0, token_end = 0,
               result_symbol = COMMENT\<rparr>)"
    by (simp add: lexer_on_def)
  have cm: "list_all (\<lambda>x. x \<noteq> 0 \<and> x \<noteq> ch_newline) [99]
            \<and> input (lexer_on [ch_hash, 99, ch_newline, 120])
                = ch_hash # [99] @ ch_newline # [120]"
    by (simp add: lexer_on_def)
  from t[THEN conjunct2, THEN conjunct2, THEN conjunct2, THEN conjunct2, THEN conjunct1,
      rule_format, OF cm, of False 3 "- 1"]
  have c6: "layout_loop False 3 (- 1) (lexer_on [ch_hash, 99, ch_newline, 120])
     = Inr (False, 0, 3,
            \<lparr>input = [120], position = 3, token_start = 3, token_end = 0,
               result_symbol = COMMENT\<rparr>)"
    by (simp add: skipped_def lexer_on_def layout_break_letter)
  let ?d = "lexer_on [ch_newline, ch_space, ch_space, ch_space, ch_space, ch_hash, 99,
                      ch_newline, ch_hash, 100, ch_newline, 120]"
  let ?e = "lexer_on [ch_newline, ch_space, ch_space, ch_hash, 99, ch_newline,
                   ch_space, ch_space, ch_space, ch_space, ch_hash, 100, ch_newline, 120]"
  have r0: "replicate 0 ch_space = []" by simp
  have id: "input ?d = ch_newline # replicate 4 ch_space @ ch_hash # [99] @ ch_newline
                          # replicate 0 ch_space @ ch_hash # [100] @ ch_newline # 120 # []
            \<and> list_all (\<lambda>x. x \<noteq> 0 \<and> x \<noteq> ch_newline) [99]
            \<and> list_all (\<lambda>x. x \<noteq> 0 \<and> x \<noteq> ch_newline) [100]
            \<and> 120 \<notin> set [ch_newline, ch_space, ch_return, ch_tab, ch_hash, ch_backslash,
                          ch_formfeed, 0]
            \<and> (?v DEDENT \<or> (\<not> ?v NEWLINE \<and> \<not> within_brackets ?v))
            \<and> previous_indent_length ?s \<noteq> 0"
    using v by (simp add: lexer_on_def r4 r0)
  have ie: "input ?e = ch_newline # replicate 2 ch_space @ ch_hash # [99] @ ch_newline
                          # replicate 4 ch_space @ ch_hash # [100] @ ch_newline # 120 # []
            \<and> list_all (\<lambda>x. x \<noteq> 0 \<and> x \<noteq> ch_newline) [99]
            \<and> list_all (\<lambda>x. x \<noteq> 0 \<and> x \<noteq> ch_newline) [100]
            \<and> 120 \<notin> set [ch_newline, ch_space, ch_return, ch_tab, ch_hash, ch_backslash,
                          ch_formfeed, 0]
            \<and> (?v DEDENT \<or> (\<not> ?v NEWLINE \<and> \<not> within_brackets ?v))
            \<and> previous_indent_length ?s \<noteq> 0"
    using v by (simp add: lexer_on_def r4 r2)
  note c7 = t[THEN conjunct2, THEN conjunct2, THEN conjunct2, THEN conjunct2, THEN conjunct2,
      rule_format, OF id, THEN conjunct1, rule_format, OF k4]
  from t[THEN conjunct2, THEN conjunct2, THEN conjunct2, THEN conjunct2, THEN conjunct2,
      rule_format, OF ie, THEN conjunct2, rule_format, OF k2]
  have c8: "scan ?s ?e ?v
     = (True, \<lparr>previous_indent_length = 0, delimiter_stack = []\<rparr>,
        \<lparr>input = [120], position = 13, token_start = 13, token_end = 0,
           result_symbol = DEDENT\<rparr>)"
    by (simp add: skipped_def mark_end_def lexer_on_def)
  from c1 c2 c3 c4 c5 c6 c7 c8 show ?thesis by (intro conjI)
qed











text \<open>
  C8: in the layout loop a backslash followed by a newline, or by a carriage return and
  a newline, is skipped and the loop goes on with \<open>found_end_of_line\<close>,
  \<open>indent_length\<close> and the first comment column as they were. If the character after
  the backslash, after one skipped carriage return if there is one, is not a newline, the
  loop returns false; and whenever the layout loop returns false, scan returns false with
  the scanner state unchanged, so no token is committed.
\<close>

theorem line_continuation:
  "(input lx = ch_backslash # ch_newline # rest \<longrightarrow>
      layout_loop found_end_of_line indent_length first_comment_indent_length lx
        = layout_loop found_end_of_line indent_length first_comment_indent_length
            (skipped 2 lx))
   \<and> (input lx = ch_backslash # ch_return # ch_newline # rest \<longrightarrow>
      layout_loop found_end_of_line indent_length first_comment_indent_length lx
        = layout_loop found_end_of_line indent_length first_comment_indent_length
            (skipped 3 lx))
   \<and> (lookahead lx = ch_backslash
        \<and> lookahead (if lookahead (skip lx) = ch_return then skip (skip lx) else skip lx)
             \<noteq> ch_newline \<longrightarrow>
      layout_loop found_end_of_line indent_length first_comment_indent_length lx
        = Inl (if lookahead (skip lx) = ch_return then skip (skip lx) else skip lx))
   \<and> (scan_string_content s lx0 valid_symbols = (None, s, lx1)
        \<and> scan_regex_content lx1 valid_symbols = (None, lx2)
        \<and> layout_loop False 0 (- 1) (mark_end lx2) = Inl lx3 \<longrightarrow>
      scan s lx0 valid_symbols = (False, s, lx3))"
proof (intro conjI impI)
  assume "input lx = ch_backslash # ch_newline # rest"
  then show "layout_loop found_end_of_line indent_length first_comment_indent_length lx
        = layout_loop found_end_of_line indent_length first_comment_indent_length
            (skipped 2 lx)"
    by (rule layout_continuation(1))
next
  assume "input lx = ch_backslash # ch_return # ch_newline # rest"
  then show "layout_loop found_end_of_line indent_length first_comment_indent_length lx
        = layout_loop found_end_of_line indent_length first_comment_indent_length
            (skipped 3 lx)"
    by (rule layout_continuation(2))
next
  assume h: "lookahead lx = ch_backslash
        \<and> lookahead (if lookahead (skip lx) = ch_return then skip (skip lx) else skip lx)
             \<noteq> ch_newline"
  show "layout_loop found_end_of_line indent_length first_comment_indent_length lx
        = Inl (if lookahead (skip lx) = ch_return then skip (skip lx) else skip lx)"
    by (rule layout_bad_continuation[OF h[THEN conjunct1] h[THEN conjunct2]])
next
  assume h: "scan_string_content s lx0 valid_symbols = (None, s, lx1)
        \<and> scan_regex_content lx1 valid_symbols = (None, lx2)
        \<and> layout_loop False 0 (- 1) (mark_end lx2) = Inl lx3"
  have "scan s lx0 valid_symbols = scan_layout s lx2 valid_symbols"
    by (rule scan_layout_dispatch[OF h[THEN conjunct1] h[THEN conjunct2, THEN conjunct1]])
  also have "\<dots> = (False, s, lx3)"
    by (simp add: scan_layout_def h[THEN conjunct2, THEN conjunct2])
  finally show "scan s lx0 valid_symbols = (False, s, lx3)" .
qed


theorem line_continuation_witness:
  "layout_loop False 4 (- 1) (lexer_on [ch_backslash, ch_newline, 120])
     = Inr (False, 4, - 1,
            \<lparr>input = [120], position = 2, token_start = 2, token_end = 0,
               result_symbol = COMMENT\<rparr>)
   \<and> layout_loop False 4 (- 1) (lexer_on [ch_backslash, ch_return, ch_newline, 120])
     = Inr (False, 4, - 1,
            \<lparr>input = [120], position = 3, token_start = 3, token_end = 0,
               result_symbol = COMMENT\<rparr>)
   \<and> layout_loop True 4 (- 1) (lexer_on [ch_backslash, 120])
     = Inl \<lparr>input = [120], position = 1, token_start = 1, token_end = 0,
            result_symbol = COMMENT\<rparr>
   \<and> scan \<lparr>previous_indent_length = 4, delimiter_stack = []\<rparr>
        (lexer_on [ch_newline, ch_backslash, 120]) (requested [NEWLINE, DEDENT])
     = (False, \<lparr>previous_indent_length = 4, delimiter_stack = []\<rparr>,
        \<lparr>input = [120], position = 2, token_start = 2, token_end = 0,
           result_symbol = COMMENT\<rparr>)"
proof -
  let ?s = "\<lparr>previous_indent_length = 4, delimiter_stack = []\<rparr>"
  let ?v = "requested [NEWLINE, DEDENT]"
  let ?l1 = "\<lparr>input = [120], position = 1, token_start = 1, token_end = 0,
               result_symbol = COMMENT\<rparr>"
  let ?l2 = "\<lparr>input = [120], position = 2, token_start = 2, token_end = 0,
               result_symbol = COMMENT\<rparr>"
  let ?l3 = "\<lparr>input = [120], position = 3, token_start = 3, token_end = 0,
               result_symbol = COMMENT\<rparr>"
  note brk = layout_break_letter
  have i1: "input (lexer_on [ch_backslash, ch_newline, 120]) = ch_backslash # ch_newline # [120]"
    and i2: "input (lexer_on [ch_backslash, ch_return, ch_newline, 120])
               = ch_backslash # ch_return # ch_newline # [120]"
    by (simp_all add: lexer_on_def)
  from line_continuation[THEN conjunct1, rule_format, OF i1, of False 4 "- 1"]
  have c1: "layout_loop False 4 (- 1) (lexer_on [ch_backslash, ch_newline, 120])
     = Inr (False, 4, - 1, ?l2)"
    by (simp add: skipped_def lexer_on_def brk)
  from line_continuation[THEN conjunct2, THEN conjunct1, rule_format, OF i2, of False 4 "- 1"]
  have c2: "layout_loop False 4 (- 1) (lexer_on [ch_backslash, ch_return, ch_newline, 120])
     = Inr (False, 4, - 1, ?l3)"
    by (simp add: skipped_def lexer_on_def brk)
  let ?b = "lexer_on [ch_backslash, 120]"
  have sk: "skip ?b = ?l1"
    by (simp add: skip_def lexer_advance_def lexer_on_def)
  have i3: "lookahead ?b = ch_backslash
        \<and> lookahead (if lookahead (skip ?b) = ch_return then skip (skip ?b) else skip ?b)
             \<noteq> ch_newline"
    by (simp add: sk) (simp add: lookahead_def lexer_on_def)
  from line_continuation[THEN conjunct2, THEN conjunct2, THEN conjunct1, rule_format, OF i3,
      of True 4 "- 1"]
  have c3: "layout_loop True 4 (- 1) ?b = Inl ?l1"
    by (simp add: sk) (simp add: lookahead_def)
  let ?lx = "lexer_on [ch_newline, ch_backslash, 120]"
  have i4: "scan_string_content ?s ?lx ?v = (None, ?s, ?lx)
        \<and> scan_regex_content ?lx ?v = (None, ?lx)
        \<and> layout_loop False 0 (- 1) (mark_end ?lx) = Inl ?l2"
    by (simp add: scan_eval)
  note c4 = line_continuation[THEN conjunct2, THEN conjunct2, THEN conjunct2, rule_format, OF i4]
  from c1 c2 c3 c4 show ?thesis by (intro conjI)
qed

subsection \<open>Which calls change the state\<close>

lemma string_content_loop_state:
  "string_content_loop e h s lx = (r, s', lx') \<Longrightarrow>
     s' = s \<or> (r = Some True \<and> s' = s\<lparr>delimiter_stack := butlast (delimiter_stack s)\<rparr>
               \<and> result_symbol lx' = STRING_END)"
proof (induction e h s lx rule: string_content_loop.induct)
  case (1 e h s lx)
  show ?case
  proof (cases "lookahead lx \<noteq> 0 \<and> lookahead lx \<noteq> ch_lbrace \<and> lookahead lx \<noteq> ch_rbrace
                \<and> lookahead lx \<noteq> ch_backslash \<and> lookahead lx \<noteq> e
                \<and> \<not> (lookahead lx = ch_newline \<and> h)")
    case True
    then have "string_content_loop e h s lx = string_content_loop e True s (advance lx)"
      by (subst string_content_loop.simps) auto
    with "1.prems" have "string_content_loop e True s (advance lx) = (r, s', lx')" by simp
    with True show ?thesis by (intro "1.IH") simp_all
  next
    case False
    with "1.prems" show ?thesis
      by (subst (asm) string_content_loop.simps)
         (auto simp: mark_end_def split: if_splits)
  qed
qed

lemma layout_decision_state:
  "layout_decision s v f i c lx = Some (s', lx') \<Longrightarrow>
     s' = s
     \<or> (previous_indent_length s = 0 \<and> s' = s\<lparr>previous_indent_length := ucast i\<rparr>
          \<and> result_symbol lx' = INDENT)
     \<or> (previous_indent_length s \<noteq> 0 \<and> s' = s\<lparr>previous_indent_length := 0\<rparr>
          \<and> result_symbol lx' = DEDENT)"
  by (auto simp: layout_decision_def split: if_splits)

lemma literal_openers_state:
  "literal_openers s v c lx = (r, s', lx') \<Longrightarrow>
     s' = s \<or> (r \<and> previous_indent_length s' = previous_indent_length s)"
  by (auto simp: literal_openers_def Let_def split: if_splits prod.splits)

lemma scan_layout_state:
  assumes "scan_layout s lx v = (r, s', lx')"
  shows "s' = s
     \<or> (r \<and> previous_indent_length s' = previous_indent_length s)
     \<or> (r \<and> previous_indent_length s = 0 \<and> delimiter_stack s' = delimiter_stack s
          \<and> result_symbol lx' = INDENT)
     \<or> (r \<and> previous_indent_length s \<noteq> 0 \<and> previous_indent_length s' = 0
          \<and> delimiter_stack s' = delimiter_stack s \<and> result_symbol lx' = DEDENT)"
proof (cases "layout_loop False 0 (- 1) (mark_end lx)")
  case (Inl lx1)
  with assms show ?thesis by (simp add: scan_layout_def)
next
  case (Inr t)
  obtain f i c lx1 where t: "t = (f, i, c, lx1)" by (cases t) auto
  show ?thesis
  proof (cases "layout_decision s v f i c lx1")
    case None
    with assms Inr t have "literal_openers s v c lx1 = (r, s', lx')"
      by (simp add: scan_layout_def)
    from literal_openers_state[OF this] show ?thesis by blast
  next
    case (Some p)
    obtain s2 lx2 where p: "p = (s2, lx2)" by (cases p) auto
    with assms Inr t Some have eq: "r" "s' = s2" "lx' = lx2"
      by (simp_all add: scan_layout_def)
    from layout_decision_state[OF Some[unfolded p]] eq show ?thesis by auto
  qed
qed

lemma scan_cases:
  assumes "scan s lx v = (r, s', lx')"
  shows "(\<exists>b. scan_string_content s lx v = (Some b, s', lx') \<and> r = b)
       \<or> (\<exists>lx1 b. scan_string_content s lx v = (None, s, lx1)
              \<and> scan_regex_content lx1 v = (Some b, lx') \<and> r = b \<and> s' = s)
       \<or> (\<exists>lx1 lx2. scan_string_content s lx v = (None, s, lx1)
              \<and> scan_regex_content lx1 v = (None, lx2)
              \<and> scan_layout s lx2 v = (r, s', lx'))"
proof -
  obtain a s1 lx1 where ssc: "scan_string_content s lx v = (a, s1, lx1)"
    by (cases "scan_string_content s lx v") auto
  obtain b lx2 where src: "scan_regex_content lx1 v = (b, lx2)"
    by (cases "scan_regex_content lx1 v") auto
  have s1: "a = None \<Longrightarrow> s1 = s"
    using ssc string_content_loop_state[of _ False s lx a s1 lx1]
    by (auto simp: scan_string_content_def split: if_splits)
  show ?thesis
    using assms ssc src s1 by (cases a; cases b) (auto simp: scan_def)
qed

lemma scan_string_content_state:
  assumes "scan_string_content s lx v = (r, s', lx')"
  shows "s' = s \<or> (r = Some True \<and> previous_indent_length s' = previous_indent_length s)"
proof (cases "v STRING_CONTENT \<and> delimiter_stack s \<noteq> [] \<and> \<not> error_recovery_mode v")
  case True
  with assms
  have "string_content_loop (end_character (last (delimiter_stack s))) False s lx = (r, s', lx')"
    by (simp add: scan_string_content_def)
  from string_content_loop_state[OF this] show ?thesis by auto
next
  case False
  with assms show ?thesis by (auto simp: scan_string_content_def)
qed


text \<open>
  C9: a scan call leaves the indentation baseline as it is, or takes it from 0 to a
  nonzero value while committing INDENT, or from a nonzero value to 0 while committing
  DEDENT; it never takes it from one nonzero value to a different nonzero value. As this
  holds for every call from every state, it holds along every sequence of calls.
\<close>

theorem scan_baseline_transitions:
  assumes "scan s lx v = (r, s', lx')"
  shows "(previous_indent_length s' = previous_indent_length s
          \<or> (previous_indent_length s = 0 \<and> previous_indent_length s' \<noteq> 0
               \<and> r \<and> result_symbol lx' = INDENT)
          \<or> (previous_indent_length s \<noteq> 0 \<and> previous_indent_length s' = 0
               \<and> r \<and> result_symbol lx' = DEDENT))
       \<and> \<not> (previous_indent_length s \<noteq> 0 \<and> previous_indent_length s' \<noteq> 0
             \<and> previous_indent_length s' \<noteq> previous_indent_length s)"
  using scan_cases[OF assms]
proof (elim disjE exE conjE)
  fix b assume "scan_string_content s lx v = (Some b, s', lx')"
  from scan_string_content_state[OF this] show ?thesis by auto
next
  fix lx1 b assume "s' = s"
  then show ?thesis by simp
next
  fix lx1 lx2 assume "scan_layout s lx2 v = (r, s', lx')"
  from scan_layout_state[OF this] show ?thesis by auto
qed

theorem scan_baseline_transitions_witness:
  "scan \<lparr>previous_indent_length = 0, delimiter_stack = []\<rparr>
        (lexer_on [10, 9, 32, 32, 120]) (requested [INDENT])
     = (True, \<lparr>previous_indent_length = 10, delimiter_stack = []\<rparr>,
        \<lparr>input = [120], position = 4, token_start = 4, token_end = 0,
           result_symbol = INDENT\<rparr>)
   \<and> (10 :: 16 word) \<noteq> 0"
proof -
  have h: "scan \<lparr>previous_indent_length = 0, delimiter_stack = []\<rparr>
        (lexer_on [10, 9, 32, 32, 120]) (requested [INDENT])
     = (True, \<lparr>previous_indent_length = 10, delimiter_stack = []\<rparr>,
        \<lparr>input = [120], position = 4, token_start = 4, token_end = 0,
           result_symbol = INDENT\<rparr>)"
    by (simp add: scan_eval)
  from scan_baseline_transitions[OF h] h show ?thesis by simp
qed

text \<open>
  C10: a scan call that returns false leaves the scanner state as it was: the same
  delimiter stack and the same indentation baseline, from every state, on every input
  and for every set of requested kinds.
\<close>

theorem scan_false_keeps_state:
  assumes "scan s lx v = (False, s', lx')"
  shows "s' = s"
  using scan_cases[OF assms]
proof (elim disjE exE conjE)
  fix b assume "scan_string_content s lx v = (Some b, s', lx')" "False = b"
  with scan_string_content_state[of s lx v "Some b" s' lx'] show ?thesis by auto
next
  fix lx1 b assume "s' = s"
  then show ?thesis .
next
  fix lx1 lx2 assume "scan_layout s lx2 v = (False, s', lx')"
  from scan_layout_state[OF this] show ?thesis by simp
qed

theorem scan_false_keeps_state_witness:
  "scan \<lparr>previous_indent_length = 4, delimiter_stack = [Delimiter 2]\<rparr>
        (lexer_on [97, 98, 10]) (requested [STRING_CONTENT])
     = (False, \<lparr>previous_indent_length = 4, delimiter_stack = [Delimiter 2]\<rparr>,
        \<lparr>input = [10], position = 2, token_start = 0, token_end = 0,
           result_symbol = COMMENT\<rparr>)"
proof -
  obtain r s' lx' where h: "scan \<lparr>previous_indent_length = 4, delimiter_stack = [Delimiter 2]\<rparr>
        (lexer_on [97, 98, 10]) (requested [STRING_CONTENT]) = (r, s', lx')"
    by (rule prod_cases3)
  moreover have "r = False" and "lx' = \<lparr>input = [10], position = 2, token_start = 0,
       token_end = 0, result_symbol = COMMENT\<rparr>"
    using h by (auto simp: scan_eval)
  ultimately show ?thesis using scan_false_keeps_state[of _ _ _ s' lx'] by simp
qed

end
